theory Spec2Isabelle
  imports Main "HOL-Library.Word"
begin

section \<open>restless-rabbit: the resumable PIN guessing loop of \<open>main/main.c\<close>\<close>

text \<open>
  The program reads 4-digit PINs from the dictionary \<open>/sdcard/PIN4.TXT\<close>, types each one on
  an emulated USB keyboard, records it in \<open>/sdcard/pin.log\<close> and waits between attempts.
  The model below follows \<open>main.c\<close> function by function.  The C library streams are modelled
  at the level of characters.  The \<open>int\<close> locals of \<open>app_main\<close> that count and time attempts
  are 32-bit words: the \<open>int\<close> of the ESP32-S3, whose arithmetic wraps around (C leaves signed
  overflow undefined; wrapping is what the two's complement target does).  Everything the
  program does to the outside (appends to the log, HID reports, delays, the status LED) is
  collected in a chronological trace; the lines for the diagnostic console (\<open>ESP_LOGI\<close>,
  \<open>ESP_LOGE\<close>) are left out.  The set-up of USB and of the SD card before line 293 is
  assumed to have succeeded.
\<close>

subsection \<open>C library streams: \<open>FILE\<close>, \<open>feof\<close> and \<open>fscanf(f, "%d", &x)\<close>\<close>

type_synonym int32 = "32 word"
type_synonym uint8 = "8 word"

text \<open>A stream open for reading: the characters not yet consumed and the end-of-file
  indicator that \<open>feof\<close> reports.  The indicator is set by a read that runs into the end
  of the file, never by \<open>fopen\<close>.\<close>

record FILE =
  unread :: string
  eof_ind :: bool

definition fopen_r :: "string \<Rightarrow> FILE" where
  "fopen_r txt = \<lparr>unread = txt, eof_ind = False\<rparr>"

definition feof :: "FILE \<Rightarrow> bool" where
  "feof f = eof_ind f"

definition isspace :: "char \<Rightarrow> bool" where
  "isspace c \<longleftrightarrow> c = CHR 0x20 \<or> c = CHR 0x09 \<or> c = CHR 0x0A \<or> c = CHR 0x0B \<or> c = CHR 0x0C \<or> c = CHR 0x0D"

definition isdigit :: "char \<Rightarrow> bool" where
  "isdigit c \<longleftrightarrow> 48 \<le> (of_char c :: nat) \<and> (of_char c :: nat) \<le> 57"

definition digit_val :: "char \<Rightarrow> int" where
  "digit_val c = int (of_char c) - 48"

definition strtol10 :: "string \<Rightarrow> int" where
  "strtol10 ds = foldl (\<lambda>a c. 10 * a + digit_val c) 0 ds"

text \<open>The three results of \<open>fscanf\<close> with one conversion: 1 (a value was assigned),
  0 (matching failure, nothing assigned) and \<open>EOF\<close> (input failure, nothing assigned).\<close>

datatype scanned = Assigned int | MatchingFailure | InputFailure

text \<open>\<open>fscanf(f, "%d", &x)\<close>: skip white space; at the end of the file fail with \<open>EOF\<close>;
  otherwise read an optional sign and the longest run of decimal digits.  The character
  after the digits stays unread.  Running into the end of the file while reading sets the
  end-of-file indicator, also when a number was converted.  The value is the mathematical
  one; C leaves a value that does not fit an \<open>int\<close> undefined.\<close>

definition fscanf_d :: "FILE \<Rightarrow> scanned \<times> FILE" where
  "fscanf_d f =
    (let s = dropWhile isspace (unread f) in
     if s = [] then (InputFailure, \<lparr>unread = [], eof_ind = True\<rparr>)
     else
       let neg = (hd s = CHR ''-'');
           body = (if hd s = CHR ''-'' \<or> hd s = CHR ''+'' then tl s else s);
           ds = takeWhile isdigit body;
           rest = dropWhile isdigit body;
           f' = \<lparr>unread = rest, eof_ind = (eof_ind f \<or> rest = [])\<rparr>
       in if ds = [] then (MatchingFailure, f')
          else (Assigned (if neg then - strtol10 ds else strtol10 ds), f'))"

text \<open>The assignment through the pointer argument: the variable keeps its value unless
  a value was converted.\<close>

definition assign :: "scanned \<Rightarrow> int \<Rightarrow> int" where
  "assign r old = (case r of Assigned v \<Rightarrow> v | MatchingFailure \<Rightarrow> old | InputFailure \<Rightarrow> old)"

subsection \<open>The observable trace and the machine state\<close>

datatype esp_err_t = ESP_OK | ESP_FAIL

text \<open>The four kinds of \<open>vTaskDelay\<close> call sites: the 50 ms key dwell of \<open>send_passcode\<close>,
  the one-second grace period and the lockout timeout of the main loop, and the 100 ms
  half-periods of the status LED.\<close>

datatype delay_site = Dwell | Grace | Timeout | Blink

text \<open>\<open>WriteLine data r\<close> is a call of \<open>write_line\<close> on the log with its result;
  \<open>Press k\<close> is \<open>tud_hid_keyboard_report\<close> with \<open>keycode = {k, 0, 0, 0, 0, 0}\<close> and
  \<open>Release\<close> the report with \<open>NULL\<close>; \<open>Delay site ms\<close> is
  \<open>vTaskDelay(pdMS_TO_TICKS(ms))\<close>; \<open>Led v\<close> is \<open>gpio_set_level(LED_GPIO, v)\<close>.\<close>

datatype event =
    WriteLine string esp_err_t
  | Press uint8
  | Release
  | Delay delay_site int32
  | Led bool

text \<open>The SD card's log file (\<open>None\<close>: there is no \<open>pin.log\<close>), whether opening it for
  appending succeeds, the trace so far, and the locals of \<open>app_main\<close>.\<close>

record state =
  pin_log :: "string option"
  appendable :: bool
  trace :: "event list"
  pinlist :: FILE
  passcode :: int
  attempts :: int32
  consecutive_attempts :: int32
  timeout_seconds :: int32

subsection \<open>\<open>write_line\<close> and \<open>read_last_passcode\<close>\<close>

text \<open>\<open>write_line(passcode_log_filename, data)\<close>: \<open>fopen(path, "a")\<close> creates the file when
  it is missing; when it fails the function returns \<open>ESP_FAIL\<close> and writes nothing.
  \<open>fprintf(f, data)\<close> appends \<open>data\<close> as it is (the only caller passes digits and a
  newline, no conversion specification).\<close>

definition write_line :: "string \<Rightarrow> state \<Rightarrow> esp_err_t \<times> state" where
  "write_line data s =
    (if \<not> appendable s then (ESP_FAIL, s\<lparr>trace := trace s @ [WriteLine data ESP_FAIL]\<rparr>)
     else (ESP_OK, s\<lparr>pin_log := Some ((case pin_log s of None \<Rightarrow> [] | Some old \<Rightarrow> old) @ data),
                     trace := trace s @ [WriteLine data ESP_OK]\<rparr>))"

text \<open>The loop \<open>while (!feof(f)) fscanf(f, "%d", passcode);\<close>.  On a log that holds
  anything but numbers \<open>fscanf\<close> stops consuming and the loop never ends: \<open>None\<close>.\<close>

partial_function (option) read_to_eof :: "FILE \<Rightarrow> int \<Rightarrow> int option" where
  "read_to_eof f p =
    (if feof f then Some p
     else case fscanf_d f of (r, f') \<Rightarrow> read_to_eof f' (assign r p))"

declare read_to_eof.simps [code]

definition read_last_passcode :: "string option \<Rightarrow> int \<Rightarrow> (esp_err_t \<times> int) option" where
  "read_last_passcode log p =
    (case log of
       None \<Rightarrow> Some (ESP_FAIL, p)
     | Some txt \<Rightarrow> map_option (Pair ESP_OK) (read_to_eof (fopen_r txt) p))"

subsection \<open>\<open>send_passcode\<close>\<close>

text \<open>Modelled from the spec: the key identifiers of the digits and of the submit key, which
  the keyboard collaborator supplies.  They are declared in TinyUSB's \<open>hid.h\<close>, which is not
  part of the repository; the values are the USB HID usage ids, as the comment in
  \<open>send_passcode\<close> has them (\<open>HID_KEY_1 = 30\<close>, \<open>HID_KEY_0 = 39\<close>), with \<open>HID_KEY_Z\<close> the id
  before \<open>HID_KEY_1\<close> and \<open>HID_KEY_ENTER\<close> the id after \<open>HID_KEY_0\<close>.  No property below
  depends on the values.\<close>

definition HID_KEY_Z :: uint8 where "HID_KEY_Z = 29"
definition HID_KEY_0 :: uint8 where "HID_KEY_0 = 39"
definition HID_KEY_ENTER :: uint8 where "HID_KEY_ENTER = 40"

definition passcode_len :: nat where "passcode_len = 4"

text \<open>The loop \<open>while (passcode > 0) { digits[i] = passcode % 10; passcode /= 10; i++; }\<close>
  on the array \<open>uint8_t digits[4]\<close>.  The operands of \<open>%\<close> and \<open>/\<close> are positive, where C's
  truncating division agrees with \<open>div\<close> and \<open>mod\<close>.  A passcode above 9999 makes the loop
  write \<open>digits[4]\<close>, outside the array: \<open>None\<close>.\<close>

function get_digits :: "int \<Rightarrow> nat \<Rightarrow> uint8 list \<Rightarrow> uint8 list option" where
  "get_digits p i digits =
    (if p > 0 then
       (if i < length digits then get_digits (p div 10) (i + 1) (digits[i := of_int (p mod 10)])
        else None)
     else Some digits)"
  by pat_completeness auto
termination
  by (relation "measure (\<lambda>(p, i, digits). nat p)") auto

declare get_digits.simps [simp del]

text \<open>\<open>%d\<close> of \<open>sprintf\<close> on a \<open>uint8_t\<close> argument: its decimal digits, no padding.\<close>

definition digit_char :: "nat \<Rightarrow> char" where
  "digit_char d = char_of (48 + d)"

definition sprintf_d :: "uint8 \<Rightarrow> string" where
  "sprintf_d b =
    (let n = unat b in
     (if n \<ge> 100 then [digit_char (n div 100)] else []) @
     (if n \<ge> 10 then [digit_char (n div 10 mod 10)] else []) @
     [digit_char (n mod 10)])"

text \<open>\<open>sprintf(pincode_str, "%d%d%d%d\n", digits[3], digits[2], digits[1], digits[0])\<close>\<close>

definition pincode_str :: "uint8 list \<Rightarrow> string" where
  "pincode_str digits =
     sprintf_d (digits ! 3) @ sprintf_d (digits ! 2) @ sprintf_d (digits ! 1) @ sprintf_d (digits ! 0)
     @ [CHR 0x0A]"

text \<open>One pass of the \<open>for\<close> loop: the key of a digit, pressed for 50 ms and released for
  50 ms.\<close>

definition digit_key :: "uint8 \<Rightarrow> uint8" where
  "digit_key d = (if d = 0 then HID_KEY_0 else HID_KEY_Z + d)"

definition tap :: "uint8 \<Rightarrow> event list" where
  "tap k = [Press k, Delay Dwell 50, Release, Delay Dwell 50]"

text \<open>The \<open>for\<close> loop runs \<open>i\<close> from \<open>passcode_len - 1\<close> down to 0, then the enter key
  submits.\<close>

definition enter_passcode :: "uint8 list \<Rightarrow> event list" where
  "enter_passcode digits =
     concat (map (\<lambda>i. tap (digit_key (digits ! i))) (rev [0..<passcode_len])) @ tap HID_KEY_ENTER"

datatype fault = DigitsOverrun

text \<open>\<open>send_passcode\<close>: the digits, the line for the log, \<open>write_line\<close> (its result is
  dropped), then the keys.  The time stamp only goes to the diagnostic console and is
  left out.\<close>

definition send_passcode :: "int \<Rightarrow> state \<Rightarrow> fault + state" where
  "send_passcode p s =
    (case get_digits p 0 (replicate passcode_len 0) of
       None \<Rightarrow> Inl DigitsOverrun
     | Some digits \<Rightarrow>
         (case write_line (pincode_str digits) s of
            (r, s') \<Rightarrow> Inr (s'\<lparr>trace := trace s' @ enter_passcode digits\<rparr>)))"

subsection \<open>\<open>app_main\<close>: the resume scan and the main loop\<close>

definition attempt_limit_timeout_doubled :: int32 where
  "attempt_limit_timeout_doubled = 200"

definition attempt_limit_no_timeouts :: int32 where
  "attempt_limit_no_timeouts = 1"

definition leeway_secs :: int32 where
  "leeway_secs = 5"

text \<open>The loop
  \<open>do { fscanf(pinlist, "%d", &passcode); num_passcodes_tried++; } while (passcode != starting_passcode);\<close>
  It tests neither the result of \<open>fscanf\<close> nor \<open>feof\<close>; a run of it that never ends is
  \<open>None\<close>.\<close>

partial_function (option) skip_scan :: "int \<Rightarrow> FILE \<Rightarrow> int \<Rightarrow> int32 \<Rightarrow> (FILE \<times> int \<times> int32) option" where
  "skip_scan starting_passcode f p num_passcodes_tried =
    (case fscanf_d f of (r, f') \<Rightarrow>
       if assign r p \<noteq> starting_passcode
       then skip_scan starting_passcode f' (assign r p) (num_passcodes_tried + 1)
       else Some (f', assign r p, num_passcodes_tried + 1))"

declare skip_scan.simps [code]

text \<open>The end of the loop body, reached unless the grace branch continues:
  \<open>vTaskDelay(pdMS_TO_TICKS(timeout_seconds * 1000)); consecutive_attempts = 0;\<close>\<close>

definition wait_timeout :: "state \<Rightarrow> state" where
  "wait_timeout s =
     s\<lparr>trace := trace s @ [Delay Timeout (timeout_seconds s * 1000)], consecutive_attempts := 0\<rparr>"

text \<open>The four statements after the \<open>if (tud_mounted())\<close> block.\<close>

definition blink :: "state \<Rightarrow> state" where
  "blink s = s\<lparr>trace := trace s @ [Led True, Delay Blink 100, Led False, Delay Blink 100]\<rparr>"

text \<open>The counters and the choice of the wait after an attempt (lines 338 to 353).
  The result says whether \<open>continue\<close> was executed.  The comparisons are those of the signed
  \<open>int\<close>.\<close>

definition pace :: "state \<Rightarrow> bool \<times> state" where
  "pace s =
    (let s1 = s\<lparr>attempts := attempts s + 1, consecutive_attempts := consecutive_attempts s + 1\<rparr> in
     if attempts s1 = attempt_limit_timeout_doubled
     then (False, wait_timeout (s1\<lparr>attempts := 0, timeout_seconds := timeout_seconds s1 * 2\<rparr>))
     else if sint (consecutive_attempts s1) < sint attempt_limit_no_timeouts
     then (True, s1\<lparr>trace := trace s1 @ [Delay Grace 1000]\<rparr>)
     else (False, wait_timeout s1))"

text \<open>The body of \<open>if (tud_mounted())\<close>: try the passcode, read the next one, pace.\<close>

definition attempt :: "state \<Rightarrow> fault + bool \<times> state" where
  "attempt s =
    (case send_passcode (passcode s) s of
       Inl e \<Rightarrow> Inl e
     | Inr s1 \<Rightarrow>
         (case fscanf_d (pinlist s1) of
            (r, f') \<Rightarrow> Inr (pace (s1\<lparr>pinlist := f', passcode := assign r (passcode s1)\<rparr>))))"

text \<open>How far a run got.  \<open>Exhausted\<close>: the main loop was left, and the program flashes
  the LED for ever.  \<open>Polling\<close>: the main loop is still running when the observation ends.
  \<open>Crashed\<close>: \<open>send_passcode\<close> wrote outside \<open>digits\<close>.  \<open>NoPinlist\<close>: the dictionary could
  not be opened and \<open>app_main\<close> returned.\<close>

datatype outcome = Exhausted state | Polling state | Crashed fault state | NoPinlist

text \<open>The main loop \<open>while (!feof(pinlist))\<close>.  The list holds the answers of the
  successive calls of \<open>tud_mounted()\<close>; the observation ends with the list.\<close>

fun main_loop :: "bool list \<Rightarrow> state \<Rightarrow> outcome" where
  "main_loop [] s = (if feof (pinlist s) then Exhausted s else Polling s)"
| "main_loop (mounted # ms) s =
    (if feof (pinlist s) then Exhausted s
     else if mounted then
       (case attempt s of
          Inl e \<Rightarrow> Crashed e s
        | Inr (continue, s') \<Rightarrow> main_loop ms (if continue then s' else blink s'))
     else main_loop ms (blink s))"

text \<open>\<open>app_main\<close> from line 293 on (USB and SD card are set up): the contents of
  \<open>PIN4.TXT\<close> and of \<open>pin.log\<close> (\<open>None\<close>: no such file), whether the log can be appended
  to, and the answers of \<open>tud_mounted()\<close>.  \<open>None\<close>: one of the two start-up loops never
  ends.\<close>

definition loop_entry :: "string option \<Rightarrow> bool \<Rightarrow> FILE \<Rightarrow> int \<Rightarrow> state" where
  "loop_entry log can_append f p =
     \<lparr>pin_log = log, appendable = can_append, trace = [Led True],
      pinlist = f, passcode = p, attempts = 0, consecutive_attempts = 0,
      timeout_seconds = 960 + leeway_secs\<rparr>"

definition app_main :: "string option \<Rightarrow> string option \<Rightarrow> bool \<Rightarrow> bool list \<Rightarrow> outcome option" where
  "app_main dictionary log can_append mounted =
    (case read_last_passcode log 0 of
       None \<Rightarrow> None
     | Some (err, starting_passcode) \<Rightarrow>
         (case dictionary of
            None \<Rightarrow> Some NoPinlist
          | Some txt \<Rightarrow>
              (case skip_scan starting_passcode (fopen_r txt) 0 0 of
                 None \<Rightarrow> None
               | Some (f, p, num_passcodes_tried) \<Rightarrow>
                   Some (main_loop mounted (loop_entry log can_append f p)))))"

subsection \<open>The vocabulary of the specification\<close>

text \<open>A candidate is a number from 0 to 9999.  Its canonical form is four ASCII digits,
  zero-padded, most significant first; a log line is the canonical form and a newline.\<close>

definition decimal_digits4 :: "int \<Rightarrow> int list" where
  "decimal_digits4 c = [c div 1000 mod 10, c div 100 mod 10, c div 10 mod 10, c mod 10]"

definition zero_padded4 :: "int \<Rightarrow> string" where
  "zero_padded4 c = map (\<lambda>d. digit_char (nat d)) (decimal_digits4 c)"

definition log_line :: "int \<Rightarrow> string" where
  "log_line c = zero_padded4 c @ [CHR 0x0A]"

definition log_text :: "string option \<Rightarrow> string" where
  "log_text log = (case log of None \<Rightarrow> [] | Some old \<Rightarrow> old)"

text \<open>The emission the specification describes: for each digit, most significant first,
  a press, the dwell, a release, the dwell; then the same for the submit key.\<close>

definition spec_emit :: "int \<Rightarrow> event list" where
  "spec_emit c =
     concat (map (\<lambda>d. [Press (digit_key (of_int d)), Delay Dwell 50, Release, Delay Dwell 50])
                 (decimal_digits4 c))
     @ [Press HID_KEY_ENTER, Delay Dwell 50, Release, Delay Dwell 50]"

definition is_key :: "event \<Rightarrow> bool" where
  "is_key e = (case e of Press k \<Rightarrow> True | Release \<Rightarrow> True | _ \<Rightarrow> False)"

text \<open>The milliseconds a piece of trace spends in \<open>vTaskDelay\<close>.\<close>

fun duration :: "event list \<Rightarrow> nat" where
  "duration [] = 0"
| "duration (Delay site ms # es) = unat ms + duration es"
| "duration (e # es) = duration es"

text \<open>The text of a file that holds the candidates \<open>D\<close>, one canonical form per line:
  the format of the attempt log.\<close>

definition candidate :: "int \<Rightarrow> bool" where
  "candidate c \<longleftrightarrow> 0 \<le> c \<and> c \<le> 9999"

definition pin_lines :: "int list \<Rightarrow> string" where
  "pin_lines D = concat (map log_line D)"

text \<open>The state in which a run ended, when \<open>app_main\<close> got as far as the main loop.\<close>

fun state_of :: "outcome \<Rightarrow> state option" where
  "state_of (Exhausted s) = Some s"
| "state_of (Polling s) = Some s"
| "state_of (Crashed e s) = Some s"
| "state_of NoPinlist = None"

text \<open>\<open>dict_text D tx\<close>: the text \<open>tx\<close> is a dictionary file that holds the numbers \<open>D\<close>, as
  the specification describes it: decimal numbers (leading zeros allowed) separated by white
  space, the last one followed by white space as well (a final newline).\<close>

inductive dict_text :: "int list \<Rightarrow> string \<Rightarrow> bool" where
  dict_end: "list_all isspace ws \<Longrightarrow> dict_text [] ws"
| dict_entry: "list_all isspace ws \<Longrightarrow> ds \<noteq> [] \<Longrightarrow> list_all isdigit ds \<Longrightarrow> strtol10 ds = c
     \<Longrightarrow> isspace sp \<Longrightarrow> dict_text D rest \<Longrightarrow> dict_text (c # D) (ws @ ds @ sp # rest)"

text \<open>A resume scan that cannot end: the stream holds only numbers other than the
  target, and the variable does not hold the target once the stream is used up.\<close>

inductive scan_stuck :: "int \<Rightarrow> FILE \<Rightarrow> int \<Rightarrow> bool" where
  "unread f = ws @ tx \<Longrightarrow> list_all isspace ws \<Longrightarrow> dict_text D tx \<Longrightarrow> t \<notin> set D
     \<Longrightarrow> (D = [] \<longrightarrow> p \<noteq> t) \<Longrightarrow> scan_stuck t f p"

text \<open>Log before emit, as a check of a trace.  The keys that type a log line are those of
  its digits and the enter key.  Replaying a trace, a call of \<open>write_line\<close> makes the keys of
  its line pending, and every press must be the next pending key: a press that does not
  follow the log write of its own candidate makes the replay fail with \<open>None\<close>.\<close>

definition key_of_char :: "char \<Rightarrow> uint8" where
  "key_of_char ch = digit_key (of_nat (of_char ch - 48))"

definition keys_of_line :: "string \<Rightarrow> uint8 list" where
  "keys_of_line l = map key_of_char (takeWhile (\<lambda>ch. ch \<noteq> CHR 0x0A) l) @ [HID_KEY_ENTER]"

fun replay :: "uint8 list \<Rightarrow> event list \<Rightarrow> uint8 list option" where
  "replay pend [] = Some pend"
| "replay pend (WriteLine l r # es) = replay (keys_of_line l) es"
| "replay pend (Press k # es) =
     (case pend of [] \<Rightarrow> None | k' # ks \<Rightarrow> if k = k' then replay ks es else None)"
| "replay pend (Release # es) = replay pend es"
| "replay pend (Delay site ms # es) = replay pend es"
| "replay pend (Led v # es) = replay pend es"

text \<open>The same replay with the log write taken at its word: only a call of \<open>write_line\<close>
  that returned \<open>ESP_OK\<close>, an append that completed, makes keys pending; after a call that
  failed no key is pending, and a press fails the replay.\<close>

fun replay_logged :: "uint8 list \<Rightarrow> event list \<Rightarrow> uint8 list option" where
  "replay_logged pend [] = Some pend"
| "replay_logged pend (WriteLine l ESP_OK # es) = replay_logged (keys_of_line l) es"
| "replay_logged pend (WriteLine l ESP_FAIL # es) = replay_logged [] es"
| "replay_logged pend (Press k # es) =
     (case pend of [] \<Rightarrow> None | k' # ks \<Rightarrow> if k = k' then replay_logged ks es else None)"
| "replay_logged pend (Release # es) = replay_logged pend es"
| "replay_logged pend (Delay site ms # es) = replay_logged pend es"
| "replay_logged pend (Led v # es) = replay_logged pend es"

text \<open>The calls of \<open>write_line\<close> in a trace, those that failed, and the text that the
  successful ones appended.\<close>

fun is_write :: "event \<Rightarrow> bool" where
  "is_write (WriteLine l r) = True"
| "is_write e = False"

fun write_failed :: "event \<Rightarrow> bool" where
  "write_failed (WriteLine l r) = (r = ESP_FAIL)"
| "write_failed e = False"

fun appended :: "event list \<Rightarrow> string" where
  "appended [] = []"
| "appended (WriteLine l ESP_OK # es) = l @ appended es"
| "appended (e # es) = appended es"

text \<open>The two waits that the pacing chooses between.\<close>

fun is_grace :: "event \<Rightarrow> bool" where
  "is_grace (Delay Grace ms) = True"
| "is_grace e = False"

fun is_timeout :: "event \<Rightarrow> bool" where
  "is_timeout (Delay Timeout ms) = True"
| "is_timeout e = False"

text \<open>Pacing as a check of a trace, in the words of the specification: when an attempt is
  completed the count of attempts since the last doubling goes up by one; when it reaches
  the doubling threshold it is reset and the current cooldown doubles; then the attempt
  waits the current cooldown, in milliseconds.  The state of the check is whether an
  attempt (a call of \<open>write_line\<close>) awaits its wait, the count and the current cooldown.
  A grace delay, a timeout delay of any other length, a second attempt before the wait of
  the first, or a timeout delay that follows no attempt makes the check fail with
  \<open>None\<close>.\<close>

fun paced :: "bool \<times> int32 \<times> int32 \<Rightarrow> event list \<Rightarrow> (bool \<times> int32 \<times> int32) option" where
  "paced st [] = Some st"
| "paced (w, a, t) (WriteLine l r # es) = (if w then None else paced (True, a, t) es)"
| "paced (w, a, t) (Delay Timeout ms # es) =
     (if \<not> w then None
      else if a + 1 = attempt_limit_timeout_doubled
      then (if ms = t * 2 * 1000 then paced (False, 0, t * 2) es else None)
      else (if ms = t * 1000 then paced (False, a + 1, t) es else None))"
| "paced st (Delay Grace ms # es) = None"
| "paced st (e # es) = paced st es"

text \<open>The counters and the timeout, and what \<open>n\<close> completed attempts make of them.\<close>

definition pacer :: "state \<Rightarrow> int32 \<times> int32 \<times> int32" where
  "pacer s = (attempts s, consecutive_attempts s, timeout_seconds s)"

definition completed :: "nat \<Rightarrow> state \<Rightarrow> state" where
  "completed n s = ((snd \<circ> pace) ^^ n) s"

section \<open>Properties\<close>

subsection \<open>One attempt: \<open>send_passcode\<close> on a candidate\<close>

lemma get_digits_range:
  assumes "0 \<le> p" "p \<le> 9999"
  shows "get_digits p 0 (replicate passcode_len 0) =
     Some [of_int (p mod 10), of_int (p div 10 mod 10), of_int (p div 100 mod 10), of_int (p div 1000 mod 10)]"
proof -
  have r: "replicate passcode_len (0::uint8) = [0,0,0,0]"
    by (simp add: passcode_len_def numeral_eq_Suc)
  have d2: "p div 10 div 10 = p div 100" and d3: "p div 10 div 10 div 10 = p div 1000"
    and d4: "p div 10 div 10 div 10 div 10 = p div 10000"
    and e3: "p div 100 div 10 = p div 1000" and e4: "p div 1000 div 10 = p div 10000"
    by (simp_all add: div_mult2_eq[symmetric])
  have z4: "p div 10000 = 0" using assms by simp
  have m3: "p div 1000 mod 10 = p div 1000" using assms by simp
  have c1: "\<not> 0 < p \<Longrightarrow> p = 0" using assms by simp
  have c2: "\<not> 0 < p div 10 \<Longrightarrow> p div 10 = 0 \<and> p div 100 = 0 \<and> p div 1000 = 0" using assms by simp
  have c3: "\<not> 0 < p div 100 \<Longrightarrow> p div 100 = 0 \<and> p div 1000 = 0" using assms by simp
  have c4: "\<not> 0 < p div 1000 \<Longrightarrow> p div 1000 = 0" using assms by simp
  show ?thesis
    unfolding r
    apply (subst get_digits.simps)
    apply (subst get_digits.simps)
    apply (subst get_digits.simps)
    apply (subst get_digits.simps)
    apply (subst get_digits.simps)
    using c1 c2 c3 c4 by (auto simp: d2 d3 d4 e3 e4 z4 m3)
qed

lemma get_digits_overrun:
  assumes "10000 \<le> p"
  shows "get_digits p 0 (replicate passcode_len 0) = None"
proof -
  have r: "replicate passcode_len (0::uint8) = [0,0,0,0]"
    by (simp add: passcode_len_def numeral_eq_Suc)
  have d: "p div 10 div 10 = p div 100" "p div 100 div 10 = p div 1000" "p div 1000 div 10 = p div 10000"
    by (simp_all add: div_mult2_eq[symmetric])
  have pos: "0 < p" "0 < p div 10" "0 < p div 100" "0 < p div 1000" "0 < p div 10000"
    using assms by simp_all
  show ?thesis
    unfolding r
    apply (subst get_digits.simps)
    apply (subst get_digits.simps)
    apply (subst get_digits.simps)
    apply (subst get_digits.simps)
    apply (subst get_digits.simps)
    using pos by (simp add: d)
qed

lemma unat_digit: "0 \<le> d \<Longrightarrow> d < 10 \<Longrightarrow> unat (word_of_int d :: uint8) = nat d"
  by (simp add: unat_eq_nat_uint uint_word_of_int take_bit_eq_mod)

lemma sprintf_d_digit: "0 \<le> d \<Longrightarrow> d < 10 \<Longrightarrow> sprintf_d (of_int d) = [digit_char (nat d)]"
  by (simp add: sprintf_d_def unat_digit Let_def)

lemma pincode_str_range:
  "pincode_str [of_int (p mod 10), of_int (p div 10 mod 10), of_int (p div 100 mod 10), of_int (p div 1000 mod 10)]
     = log_line p"
  by (simp add: pincode_str_def sprintf_d_digit log_line_def zero_padded4_def decimal_digits4_def numeral_3_eq_3)

lemma enter_passcode_range:
  "enter_passcode [of_int (p mod 10), of_int (p div 10 mod 10), of_int (p div 100 mod 10), of_int (p div 1000 mod 10)]
     = spec_emit p"
  by (simp add: enter_passcode_def spec_emit_def decimal_digits4_def passcode_len_def tap_def
      numeral_eq_Suc upt_rec)

lemma send_passcode_range:
  assumes "0 \<le> p" "p \<le> 9999"
  shows "send_passcode p s =
    Inr (s\<lparr>pin_log := (if appendable s then Some (log_text (pin_log s) @ log_line p) else pin_log s),
           trace := trace s @ WriteLine (log_line p) (if appendable s then ESP_OK else ESP_FAIL) # spec_emit p\<rparr>)"
  by (simp add: send_passcode_def get_digits_range[OF assms] pincode_str_range enter_passcode_range
      write_line_def log_text_def)

lemma digit_char_numerals:
  "digit_char 0 = CHR ''0''" "digit_char 1 = CHR ''1''" "digit_char 2 = CHR ''2''"
  "digit_char 3 = CHR ''3''" "digit_char 4 = CHR ''4''" "digit_char 5 = CHR ''5''"
  "digit_char 6 = CHR ''6''" "digit_char 7 = CHR ''7''" "digit_char 8 = CHR ''8''"
  "digit_char 9 = CHR ''9''"
  by code_simp+

lemma of_char_digit_char: "d < 10 \<Longrightarrow> (of_char (digit_char d) :: nat) = 48 + d"
  by (simp add: digit_char_def)

lemma isdigit_digit_char: "d < 10 \<Longrightarrow> isdigit (digit_char d)"
  by (simp add: isdigit_def of_char_digit_char)

lemma digit_val_digit_char: "d < 10 \<Longrightarrow> digit_val (digit_char d) = int d"
  by (simp add: digit_val_def of_char_digit_char)

lemma horner4:
  fixes c :: int
  shows "c = 10 * a + m0 \<Longrightarrow> a = 10 * b + m1 \<Longrightarrow> b = 10 * d + m2
    \<Longrightarrow> 10 * (10 * (10 * d + m2) + m1) + m0 = c"
  by simp

lemma strtol10_zero_padded4:
  assumes "0 \<le> c" "c \<le> 9999"
  shows "strtol10 (zero_padded4 c) = c"
proof -
  have h0: "c div 1000 mod 10 = c div 1000" using assms by simp
  have e2: "c div 10 div 10 = c div 100" and e3: "c div 100 div 10 = c div 1000"
    by (simp_all add: div_mult2_eq[symmetric])
  have h1: "c = 10 * (c div 10) + c mod 10"
    by (rule mult_div_mod_eq[symmetric])
  have h2: "c div 10 = 10 * (c div 100) + c div 10 mod 10"
    using mult_div_mod_eq[of 10 "c div 10", symmetric] unfolding e2 .
  have h3: "c div 100 = 10 * (c div 1000) + c div 100 mod 10"
    using mult_div_mod_eq[of 10 "c div 100", symmetric] unfolding e3 .
  have b: "nat (c div 1000 mod 10) < 10" "nat (c div 100 mod 10) < 10"
     "nat (c div 10 mod 10) < 10" "nat (c mod 10) < 10"
    by simp_all
  have "strtol10 (zero_padded4 c) =
      10 * (10 * (10 * (c div 1000 mod 10) + c div 100 mod 10) + c div 10 mod 10) + c mod 10"
    by (simp add: strtol10_def zero_padded4_def decimal_digits4_def digit_val_digit_char[OF b(1)]
        digit_val_digit_char[OF b(2)] digit_val_digit_char[OF b(3)] digit_val_digit_char[OF b(4)])
  also have "\<dots> = c"
    unfolding h0 by (rule horner4[OF h1 h2 h3])
  finally show ?thesis .
qed

lemma zero_padded4_digits: "ch \<in> set (zero_padded4 c) \<Longrightarrow> isdigit ch"
  by (auto simp: zero_padded4_def decimal_digits4_def intro!: isdigit_digit_char)

lemma filter_spec_emit:
  "filter is_key (spec_emit c) =
     concat (map (\<lambda>d. [Press (digit_key (of_int d)), Release]) (decimal_digits4 c))
     @ [Press HID_KEY_ENTER, Release]"
  by (simp add: spec_emit_def is_key_def decimal_digits4_def)

lemma duration_spec_emit: "duration (spec_emit c) = (4 * 2 + 2) * 50"
  by (simp add: spec_emit_def decimal_digits4_def)

text \<open>
  C8: for every candidate from 0 to 9999 the line that \<open>send_passcode\<close> appends to the
  attempt log is the candidate's zero-padded form and a newline: four characters, each an
  ASCII digit, that read as the candidate in decimal, then \<open>\n\<close>.
\<close>

theorem log_line_format:
  assumes "0 \<le> c" "c \<le> 9999" "appendable s"
  shows "\<exists>s'. send_passcode c s = Inr s'
           \<and> pin_log s' = Some (log_text (pin_log s) @ zero_padded4 c @ [CHR 0x0A])
           \<and> length (zero_padded4 c) = 4
           \<and> list_all isdigit (zero_padded4 c)
           \<and> strtol10 (zero_padded4 c) = c"
proof -
  have "list_all isdigit (zero_padded4 c)"
    by (simp add: list_all_iff zero_padded4_digits)
  moreover have "length (zero_padded4 c) = 4"
    by (simp add: zero_padded4_def decimal_digits4_def)
  ultimately show ?thesis
    using assms by (simp add: send_passcode_range strtol10_zero_padded4 log_line_def)
qed

theorem log_line_format_witness:
  "(0::int) \<le> 7 \<and> (7::int) \<le> 9999 \<and> appendable (loop_entry (Some ''0001\<newline>'') True (fopen_r []) 7)
   \<and> (\<exists>s'. send_passcode 7 (loop_entry (Some ''0001\<newline>'') True (fopen_r []) 7) = Inr s'
           \<and> pin_log s' = Some ''0001\<newline>0007\<newline>'')"
  using log_line_format [of 7 "loop_entry (Some ''0001\<newline>'') True (fopen_r []) 7"]
  by (auto simp add: loop_entry_def log_text_def zero_padded4_def decimal_digits4_def digit_char_numerals)

text \<open>
  C7: for every candidate from 0 to 9999, what \<open>send_passcode\<close> does after the log write
  is the emission of the specification: four press/release pairs for the decimal digits,
  most significant first, then one pair for the enter key, every release right after its
  own press (only the dwell between them), and \<open>(4 * 2 + 2) * 50\<close> ms of delay in total.
\<close>

theorem emission_shape:
  assumes "0 \<le> c" "c \<le> 9999"
  shows "\<exists>s' r. send_passcode c s = Inr s'
           \<and> trace s' = trace s @ WriteLine (log_line c) r # spec_emit c
           \<and> filter is_key (spec_emit c) =
               [Press (digit_key (of_int (c div 1000 mod 10))), Release,
                Press (digit_key (of_int (c div 100 mod 10))), Release,
                Press (digit_key (of_int (c div 10 mod 10))), Release,
                Press (digit_key (of_int (c mod 10))), Release,
                Press HID_KEY_ENTER, Release]
           \<and> duration (spec_emit c) = (4 * 2 + 2) * 50"
  using assms
  by (simp add: send_passcode_range filter_spec_emit duration_spec_emit decimal_digits4_def)

theorem emission_shape_witness:
  "(0::int) \<le> 42 \<and> (42::int) \<le> 9999
   \<and> (\<exists>s' r. send_passcode 42 (loop_entry None True (fopen_r []) 42) = Inr s'
         \<and> trace s' = [Led True, WriteLine ''0042\<newline>'' r,
               Press 39, Delay Dwell 50, Release, Delay Dwell 50,
               Press 39, Delay Dwell 50, Release, Delay Dwell 50,
               Press 33, Delay Dwell 50, Release, Delay Dwell 50,
               Press 31, Delay Dwell 50, Release, Delay Dwell 50,
               Press 40, Delay Dwell 50, Release, Delay Dwell 50])"
  using emission_shape [of 42 "loop_entry None True (fopen_r []) 42"]
  by (auto simp add: loop_entry_def log_line_def zero_padded4_def decimal_digits4_def digit_char_numerals
      spec_emit_def digit_key_def HID_KEY_0_def HID_KEY_Z_def HID_KEY_ENTER_def)

subsection \<open>Streams that hold candidates\<close>

lemma isdigit_not_space: "isdigit ch \<Longrightarrow> \<not> isspace ch"
  by (auto simp: isdigit_def isspace_def)

lemma isdigit_not_sign: "isdigit ch \<Longrightarrow> ch \<noteq> CHR ''-'' \<and> ch \<noteq> CHR ''+''"
  by (auto simp: isdigit_def)

lemma newline_space: "isspace (CHR 0x0A)" and newline_not_digit: "\<not> isdigit (CHR 0x0A)"
  by (simp_all add: isspace_def isdigit_def)

lemma fscanf_d_number:
  assumes ws: "\<forall>ch\<in>set ws. isspace ch" and ds: "ds \<noteq> []" "\<forall>ch\<in>set ds. isdigit ch"
    and r: "r = [] \<or> \<not> isdigit (hd r)"
  shows "fscanf_d \<lparr>unread = ws @ ds @ r, eof_ind = e\<rparr>
       = (Assigned (strtol10 ds), \<lparr>unread = r, eof_ind = (e \<or> r = [])\<rparr>)"
proof -
  obtain d ds' where dd: "ds = d # ds'" using ds(1) by (cases ds) auto
  have d: "isdigit d" using ds(2) dd by simp
  have s: "dropWhile isspace (ws @ ds @ r) = ds @ r"
    using ws d dd by (simp add: dropWhile_append2 isdigit_not_space)
  have t: "takeWhile isdigit (ds @ r) = ds"
    using ds(2) r by (cases r) (simp_all add: takeWhile_append2)
  have u: "dropWhile isdigit (ds @ r) = r"
    using ds(2) r by (cases r) (simp_all add: dropWhile_append2)
  have h: "hd (ds @ r) = d" using dd by simp
  show ?thesis
    using isdigit_not_sign[OF d] ds(1)
    by (simp add: fscanf_d_def s Let_def h t u)
qed

lemma fscanf_d_end:
  assumes "\<forall>ch\<in>set ws. isspace ch"
  shows "fscanf_d \<lparr>unread = ws, eof_ind = e\<rparr> = (InputFailure, \<lparr>unread = [], eof_ind = True\<rparr>)"
proof -
  have "dropWhile isspace ws = []" using assms by simp
  then show ?thesis by (simp add: fscanf_d_def)
qed

lemma fscanf_d_lines:
  assumes ws: "\<forall>ch\<in>set ws. isspace ch" and c: "candidate c"
  shows "fscanf_d \<lparr>unread = ws @ pin_lines (c # cs), eof_ind = e\<rparr>
       = (Assigned c, \<lparr>unread = CHR 0x0A # pin_lines cs, eof_ind = e\<rparr>)"
proof -
  have "fscanf_d \<lparr>unread = ws @ zero_padded4 c @ (CHR 0x0A # pin_lines cs), eof_ind = e\<rparr>
     = (Assigned (strtol10 (zero_padded4 c)),
        \<lparr>unread = CHR 0x0A # pin_lines cs, eof_ind = (e \<or> CHR 0x0A # pin_lines cs = [])\<rparr>)"
    by (rule fscanf_d_number[OF ws])
       (auto simp: zero_padded4_digits newline_not_digit zero_padded4_def decimal_digits4_def)
  then show ?thesis
    using c by (simp add: pin_lines_def log_line_def strtol10_zero_padded4 candidate_def)
qed

subsection \<open>Reading the log and the resume scan\<close>

lemma read_to_eof_lines:
  assumes "list_all candidate cs" "\<forall>ch\<in>set ws. isspace ch"
  shows "read_to_eof \<lparr>unread = ws @ pin_lines cs, eof_ind = False\<rparr> p = Some (last (p # cs))"
  using assms
proof (induction cs arbitrary: p ws)
  case Nil
  show ?case
    apply (subst read_to_eof.simps)
    apply (simp add: feof_def pin_lines_def fscanf_d_end[OF Nil(2)] assign_def)
    apply (subst read_to_eof.simps)
    apply (simp add: feof_def)
    done
next
  case (Cons c cs)
  have c: "candidate c" and cs: "list_all candidate cs" using Cons.prems by simp_all
  have nl: "\<forall>ch\<in>set [CHR 0x0A]. isspace ch" by (simp add: newline_space)
  show ?case
    apply (subst read_to_eof.simps)
    apply (simp add: feof_def fscanf_d_lines[OF Cons.prems(2) c] assign_def)
    using Cons.IH[OF cs nl, of c] by auto
qed

lemma read_last_passcode_lines:
  assumes "list_all candidate L"
  shows "read_last_passcode (Some (pin_lines L)) p = Some (ESP_OK, last (p # L))"
  using read_to_eof_lines[OF assms, of "[]" p] 
  by (simp add: read_last_passcode_def fopen_r_def)

lemma dict_text_pin_lines: "list_all candidate D \<Longrightarrow> dict_text D (pin_lines D)"
proof (induction D)
  case Nil
  show ?case by (simp add: pin_lines_def dict_end)
next
  case (Cons c D)
  then have c: "0 \<le> c" "c \<le> 9999" and D: "dict_text D (pin_lines D)"
    by (simp_all add: candidate_def)
  have "dict_text (c # D) ([] @ zero_padded4 c @ CHR 0x0A # pin_lines D)"
    by (rule dict_entry[OF _ _ _ strtol10_zero_padded4[OF c] newline_space D])
       (simp_all add: list_all_iff zero_padded4_digits, simp add: zero_padded4_def decimal_digits4_def)
  then show ?case by (simp add: pin_lines_def log_line_def)
qed

lemma fscanf_d_dict_end:
  assumes "list_all isspace lead" "dict_text [] tx"
  shows "fscanf_d \<lparr>unread = lead @ tx, eof_ind = e\<rparr> = (InputFailure, \<lparr>unread = [], eof_ind = True\<rparr>)"
proof -
  from assms(2) have "list_all isspace tx" by (cases rule: dict_text.cases) simp
  with assms(1) have "\<forall>ch\<in>set (lead @ tx). isspace ch" by (auto simp: list_all_iff)
  then show ?thesis by (rule fscanf_d_end)
qed

lemma fscanf_d_dict:
  assumes "list_all isspace lead" "dict_text (c # D) tx"
  shows "\<exists>sp rest. fscanf_d \<lparr>unread = lead @ tx, eof_ind = e\<rparr>
             = (Assigned c, \<lparr>unread = sp # rest, eof_ind = e\<rparr>)
           \<and> isspace sp \<and> dict_text D rest"
proof -
  from assms(2) obtain ws ds sp rest where t: "tx = ws @ ds @ sp # rest"
    and w: "list_all isspace ws" and d: "ds \<noteq> []" "list_all isdigit ds" "strtol10 ds = c"
    and s: "isspace sp" and r: "dict_text D rest"
    by (cases rule: dict_text.cases) auto
  have "fscanf_d \<lparr>unread = (lead @ ws) @ ds @ (sp # rest), eof_ind = e\<rparr>
      = (Assigned (strtol10 ds), \<lparr>unread = sp # rest, eof_ind = (e \<or> sp # rest = [])\<rparr>)"
  proof (rule fscanf_d_number)
    show "\<forall>ch\<in>set (lead @ ws). isspace ch" using assms(1) w by (auto simp: list_all_iff)
    show "ds \<noteq> []" by fact
    show "\<forall>ch\<in>set ds. isdigit ch" using d(2) by (simp add: list_all_iff)
    show "sp # rest = [] \<or> \<not> isdigit (hd (sp # rest))" using s isdigit_not_space by auto
  qed
  then show ?thesis using t d(3) s r by auto
qed

lemma skip_scan_found:
  assumes "dict_text (pre @ t # rest) tx" "t \<notin> set pre" "list_all isspace lead"
  shows "\<exists>sp tx2. skip_scan t \<lparr>unread = lead @ tx, eof_ind = False\<rparr> p n
       = Some (\<lparr>unread = sp # tx2, eof_ind = False\<rparr>, t, n + of_nat (length pre) + 1)
       \<and> isspace sp \<and> dict_text rest tx2"
  using assms
proof (induction pre arbitrary: p n lead tx)
  case Nil
  then have "dict_text (t # rest) tx" by simp
  from fscanf_d_dict[OF Nil(3) this, of False] obtain sp tx2 where
    "fscanf_d \<lparr>unread = lead @ tx, eof_ind = False\<rparr> = (Assigned t, \<lparr>unread = sp # tx2, eof_ind = False\<rparr>)"
    "isspace sp" "dict_text rest tx2"
    by blast
  then show ?case
    by (subst skip_scan.simps) (simp add: assign_def)
next
  case (Cons c pre)
  have c: "c \<noteq> t" and pre: "t \<notin> set pre" using Cons.prems(2) by auto
  have "dict_text (c # (pre @ t # rest)) tx" using Cons.prems(1) by simp
  from fscanf_d_dict[OF Cons.prems(3) this, of False] obtain sp tx1 where
    f: "fscanf_d \<lparr>unread = lead @ tx, eof_ind = False\<rparr> = (Assigned c, \<lparr>unread = sp # tx1, eof_ind = False\<rparr>)"
    and sp: "isspace sp" and d: "dict_text (pre @ t # rest) tx1"
    by blast
  have l: "list_all isspace [sp]" using sp by simp
  from Cons.IH[OF d pre l, of c "n + 1"] obtain sp' tx2 where
    "skip_scan t \<lparr>unread = [sp] @ tx1, eof_ind = False\<rparr> c (n + 1)
       = Some (\<lparr>unread = sp' # tx2, eof_ind = False\<rparr>, t, n + 1 + of_nat (length pre) + 1)"
    "isspace sp'" "dict_text rest tx2"
    by blast
  then show ?case
    by (subst skip_scan.simps) (simp add: f assign_def c add.assoc add.commute)
qed

lemma scan_stuck_step:
  assumes "scan_stuck t f p"
  obtains r f' where "fscanf_d f = (r, f')" "assign r p \<noteq> t" "scan_stuck t f' (assign r p)"
proof -
  from assms obtain ws tx D where u: "unread f = ws @ tx" and ws: "list_all isspace ws"
    and D: "dict_text D tx" "t \<notin> set D" "D = [] \<longrightarrow> p \<noteq> t"
    by (auto elim: scan_stuck.cases)
  have f: "f = \<lparr>unread = ws @ tx, eof_ind = eof_ind f\<rparr>" using u by simp
  show ?thesis
  proof (cases D)
    case Nil
    then have "fscanf_d f = (InputFailure, \<lparr>unread = [], eof_ind = True\<rparr>)"
      using fscanf_d_dict_end[OF ws, of tx "eof_ind f"] D(1) f by simp
    moreover have "scan_stuck t \<lparr>unread = [], eof_ind = True\<rparr> p"
      using D(3) Nil by (intro scan_stuck.intros[of _ "[]" "[]" "[]"]) (simp_all add: dict_end)
    ultimately show ?thesis using that D(3) Nil by (simp add: assign_def)
  next
    case (Cons c cs)
    then have c: "c \<noteq> t" and cs: "t \<notin> set cs" using D by auto
    from fscanf_d_dict[OF ws, of c cs tx "eof_ind f"] D(1) Cons f obtain sp rest where
      r: "fscanf_d f = (Assigned c, \<lparr>unread = sp # rest, eof_ind = eof_ind f\<rparr>)"
      "isspace sp" "dict_text cs rest"
      by auto
    have "scan_stuck t \<lparr>unread = sp # rest, eof_ind = eof_ind f\<rparr> c"
      using cs c r(2,3) by (intro scan_stuck.intros[of _ "[sp]" rest cs]) simp_all
    then show ?thesis using that c r(1) by (simp add: assign_def)
  qed
qed

lemma skip_scan_stuck_aux:
  assumes "skip_scan t f p n = Some y"
  shows "\<not> scan_stuck t f p"
proof (rule skip_scan.raw_induct[where P = "\<lambda>t f p n y. \<not> scan_stuck t f p", OF _ assms])
  fix skip :: "int \<Rightarrow> FILE \<Rightarrow> int \<Rightarrow> int32 \<Rightarrow> (FILE \<times> int \<times> int32) option"
    and t f p n y
  assume IH: "\<And>t f p n y. skip t f p n = Some y \<Longrightarrow> \<not> scan_stuck t f p"
    and body: "(case fscanf_d f of (r, f') \<Rightarrow>
        if assign r p \<noteq> t then skip t f' (assign r p) (n + 1)
        else Some (f', assign r p, n + 1)) = Some y"
  show "\<not> scan_stuck t f p"
  proof
    assume "scan_stuck t f p"
    then obtain r f' where s: "fscanf_d f = (r, f')" "assign r p \<noteq> t" "scan_stuck t f' (assign r p)"
      by (rule scan_stuck_step)
    from body s have "skip t f' (assign r p) (n + 1) = Some y" by simp
    from IH[OF this] s(3) show False by simp
  qed
qed

lemma skip_scan_never_ends:
  assumes "dict_text D tx" "t \<notin> set D" "D = [] \<longrightarrow> p \<noteq> t"
  shows "skip_scan t (fopen_r tx) p n = None"
proof -
  have "scan_stuck t (fopen_r tx) p"
    using assms by (intro scan_stuck.intros[of _ "[]" tx D]) (simp_all add: fopen_r_def)
  then show ?thesis
    using skip_scan_stuck_aux[of t "fopen_r tx" p n] by (cases "skip_scan t (fopen_r tx) p n") auto
qed

subsection \<open>The main loop on a stream of candidates\<close>

lemma pace_fields:
  "pin_log (snd (pace s)) = pin_log s" "appendable (snd (pace s)) = appendable s"
  "pinlist (snd (pace s)) = pinlist s" "passcode (snd (pace s)) = passcode s"
  by (simp_all add: pace_def wait_timeout_def Let_def)

lemma blink_fields:
  "pin_log (blink s) = pin_log s" "appendable (blink s) = appendable s"
  "pinlist (blink s) = pinlist s" "passcode (blink s) = passcode s"
  by (simp_all add: blink_def)

lemma main_loop_feof: "feof (pinlist s) \<Longrightarrow> main_loop ms s = Exhausted s"
  by (cases ms) simp_all

lemma pacer_blink: "pacer (blink s) = pacer s"
  by (simp add: blink_def pacer_def)

lemma pace_pacer: "pacer s = pacer t \<Longrightarrow> pacer (snd (pace s)) = pacer (snd (pace t))"
  by (simp add: pace_def pacer_def wait_timeout_def Let_def)

lemma completed_Suc: "completed (Suc n) s = snd (pace (completed n s))"
  by (simp add: completed_def)

lemma completed_Suc_first: "completed (Suc n) s = completed n (snd (pace s))"
  by (simp add: completed_def funpow_swap1)

lemma completed_pacer: "pacer s = pacer t \<Longrightarrow> pacer (completed n s) = pacer (completed n t)"
proof (induction n)
  case 0
  then show ?case by (simp add: completed_def)
next
  case (Suc n)
  then show ?case unfolding completed_Suc by (intro pace_pacer) simp
qed

lemma attempt_candidate:
  assumes "candidate (passcode s)"
  shows "attempt s = Inr (pace (s\<lparr>
      pin_log := (if appendable s then Some (log_text (pin_log s) @ log_line (passcode s)) else pin_log s),
      trace := trace s @ WriteLine (log_line (passcode s)) (if appendable s then ESP_OK else ESP_FAIL)
                 # spec_emit (passcode s),
      pinlist := snd (fscanf_d (pinlist s)),
      passcode := assign (fst (fscanf_d (pinlist s))) (passcode s)\<rparr>))"
  using assms
  by (simp add: attempt_def send_passcode_range candidate_def split: prod.split)

lemma attempt_next:
  assumes "candidate (passcode s)" "appendable s"
    "pinlist s = \<lparr>unread = sp # tx, eof_ind = False\<rparr>" "isspace sp" "dict_text rest tx"
  shows "\<exists>b s'. attempt s = Inr (b, s')
    \<and> log_text (pin_log s') = log_text (pin_log s) @ log_line (passcode s)
    \<and> appendable s' \<and> appendable (blink s') \<and> pin_log (blink s') = pin_log s'
    \<and> pacer s' = pacer (snd (pace s)) \<and> pacer (blink s') = pacer (snd (pace s))
    \<and> (rest = [] \<longrightarrow> feof (pinlist s') \<and> feof (pinlist (blink s')))
    \<and> (\<forall>c cs. rest = c # cs \<longrightarrow> (\<exists>sp' tx'. isspace sp' \<and> dict_text cs tx'
      \<and> pinlist s' = \<lparr>unread = sp' # tx', eof_ind = False\<rparr> \<and> passcode s' = c
      \<and> pinlist (blink s') = \<lparr>unread = sp' # tx', eof_ind = False\<rparr> \<and> passcode (blink s') = c))"
proof -
  let ?s1 = "s\<lparr>
      pin_log := (if appendable s then Some (log_text (pin_log s) @ log_line (passcode s)) else pin_log s),
      trace := trace s @ WriteLine (log_line (passcode s)) (if appendable s then ESP_OK else ESP_FAIL)
                 # spec_emit (passcode s),
      pinlist := snd (fscanf_d (pinlist s)),
      passcode := assign (fst (fscanf_d (pinlist s))) (passcode s)\<rparr>"
  have a: "attempt s = Inr (fst (pace ?s1), snd (pace ?s1))"
    using attempt_candidate[OF assms(1)] by simp
  have l: "list_all isspace [sp]" using assms(4) by simp
  have e: "rest = [] \<Longrightarrow> fscanf_d (pinlist s) = (InputFailure, \<lparr>unread = [], eof_ind = True\<rparr>)"
    using fscanf_d_dict_end[OF l, of tx False] assms(3,5) by simp
  have n: "\<And>c cs. rest = c # cs \<Longrightarrow> \<exists>sp' tx'. isspace sp' \<and> dict_text cs tx'
      \<and> fscanf_d (pinlist s) = (Assigned c, \<lparr>unread = sp' # tx', eof_ind = False\<rparr>)"
  proof -
    fix c cs assume "rest = c # cs"
    then have "dict_text (c # cs) tx" using assms(5) by simp
    from fscanf_d_dict[OF l this, of False] show "\<exists>sp' tx'. isspace sp' \<and> dict_text cs tx'
      \<and> fscanf_d (pinlist s) = (Assigned c, \<lparr>unread = sp' # tx', eof_ind = False\<rparr>)"
      using assms(3) by auto
  qed
  have pc: "pacer (snd (pace ?s1)) = pacer (snd (pace s))"
    by (rule pace_pacer) (simp add: pacer_def)
  have 1: "log_text (pin_log (snd (pace ?s1))) = log_text (pin_log s) @ log_line (passcode s)"
    "appendable (snd (pace ?s1))" "appendable (blink (snd (pace ?s1)))"
    "pin_log (blink (snd (pace ?s1))) = pin_log (snd (pace ?s1))"
    "pacer (blink (snd (pace ?s1))) = pacer (snd (pace s))"
    using assms(2) pc by (simp_all add: pace_fields blink_fields log_text_def pacer_blink)
  have 2: "rest = [] \<longrightarrow> feof (pinlist (snd (pace ?s1))) \<and> feof (pinlist (blink (snd (pace ?s1))))"
    using e by (simp add: pace_fields blink_fields feof_def)
  have 3: "\<forall>c cs. rest = c # cs \<longrightarrow> (\<exists>sp' tx'. isspace sp' \<and> dict_text cs tx'
      \<and> pinlist (snd (pace ?s1)) = \<lparr>unread = sp' # tx', eof_ind = False\<rparr> \<and> passcode (snd (pace ?s1)) = c
      \<and> pinlist (blink (snd (pace ?s1))) = \<lparr>unread = sp' # tx', eof_ind = False\<rparr>
      \<and> passcode (blink (snd (pace ?s1))) = c)"
  proof (intro allI impI)
    fix c cs assume "rest = c # cs"
    from n[OF this] obtain sp' tx' where "isspace sp'" "dict_text cs tx'"
      "fscanf_d (pinlist s) = (Assigned c, \<lparr>unread = sp' # tx', eof_ind = False\<rparr>)"
      by blast
    then show "\<exists>sp' tx'. isspace sp' \<and> dict_text cs tx'
      \<and> pinlist (snd (pace ?s1)) = \<lparr>unread = sp' # tx', eof_ind = False\<rparr> \<and> passcode (snd (pace ?s1)) = c
      \<and> pinlist (blink (snd (pace ?s1))) = \<lparr>unread = sp' # tx', eof_ind = False\<rparr>
      \<and> passcode (blink (snd (pace ?s1))) = c"
      by (intro exI[of _ sp'] exI[of _ tx']) (simp add: pace_fields blink_fields assign_def)
  qed
  show ?thesis
    apply (rule exI[of _ "fst (pace ?s1)"])
    apply (rule exI[of _ "snd (pace ?s1)"])
    using a pc 1 2 3 by blast
qed

lemma main_loop_log:
  assumes "candidate (passcode s)" "appendable s"
    "pinlist s = \<lparr>unread = sp # tx, eof_ind = False\<rparr>" "isspace sp" "dict_text rest tx"
    "list_all candidate rest"
  shows "\<exists>s'. main_loop ms s =
           (if length (passcode s # rest) \<le> count_list ms True then Exhausted s' else Polling s')
         \<and> log_text (pin_log s') =
             log_text (pin_log s) @ pin_lines (take (count_list ms True) (passcode s # rest))
         \<and> pacer s' = pacer (completed (min (count_list ms True) (length (passcode s # rest))) s)"
  using assms
proof (induction ms arbitrary: s rest sp tx)
  case Nil
  then show ?case by (simp add: feof_def pin_lines_def completed_def)
next
  case (Cons m ms)
  note prems = Cons.prems
  have nf: "\<not> feof (pinlist s)" using prems(3) by (simp add: feof_def)
  show ?case
  proof (cases m)
    case False
    have "candidate (passcode (blink s))" "appendable (blink s)"
      "pinlist (blink s) = \<lparr>unread = sp # tx, eof_ind = False\<rparr>"
      using prems by (simp_all add: blink_fields)
    from Cons.IH[OF this prems(4,5,6)] False nf show ?thesis
      using completed_pacer[OF pacer_blink[of s]] by (simp add: blink_fields)
  next
    case True
    obtain b s1 where a: "attempt s = Inr (b, s1)"
      and l: "log_text (pin_log s1) = log_text (pin_log s) @ log_line (passcode s)"
      and ap: "appendable s1" "appendable (blink s1)" and bl: "pin_log (blink s1) = pin_log s1"
      and pc: "pacer s1 = pacer (snd (pace s))" "pacer (blink s1) = pacer (snd (pace s))"
      and e: "rest = [] \<longrightarrow> feof (pinlist s1) \<and> feof (pinlist (blink s1))"
      and n: "\<forall>c cs. rest = c # cs \<longrightarrow> (\<exists>sp' tx'. isspace sp' \<and> dict_text cs tx'
        \<and> pinlist s1 = \<lparr>unread = sp' # tx', eof_ind = False\<rparr> \<and> passcode s1 = c
        \<and> pinlist (blink s1) = \<lparr>unread = sp' # tx', eof_ind = False\<rparr> \<and> passcode (blink s1) = c)"
      using attempt_next[OF prems(1-5)] by blast
    define s2 where "s2 = (if b then s1 else blink s1)"
    have m: "main_loop (m # ms) s = main_loop ms s2"
      using True nf a by (simp add: s2_def)
    have l2: "log_text (pin_log s2) = log_text (pin_log s) @ log_line (passcode s)"
      and ap2: "appendable s2" and pc2: "pacer s2 = pacer (snd (pace s))"
      using l ap bl pc by (simp_all add: s2_def)
    have pk: "\<And>k. pacer (completed k s2) = pacer (completed (Suc k) s)"
      using completed_pacer[OF pc2] by (simp add: completed_Suc_first)
    show ?thesis
    proof (cases rest)
      case Nil
      then have "feof (pinlist s2)" using e by (simp add: s2_def)
      then have "main_loop ms s2 = Exhausted s2" by (rule main_loop_feof)
      moreover have "pacer s2 = pacer (completed (Suc 0) s)"
        using pk[of 0] by (simp add: completed_def)
      ultimately show ?thesis using m l2 True Nil by (simp add: pin_lines_def)
    next
      case rc: (Cons c cs)
      from n rc obtain sp' tx' where sp': "isspace sp'" "dict_text cs tx'"
        and p2: "pinlist s2 = \<lparr>unread = sp' # tx', eof_ind = False\<rparr>" "passcode s2 = c"
        by (auto simp: s2_def)
      have c: "candidate (passcode s2)" "list_all candidate cs"
        using prems(6) rc p2 by simp_all
      from Cons.IH[OF c(1) ap2 p2(1) sp' c(2)] obtain s' where
        "main_loop ms s2 = (if length (passcode s2 # cs) \<le> count_list ms True then Exhausted s' else Polling s')"
        "log_text (pin_log s') = log_text (pin_log s2) @ pin_lines (take (count_list ms True) (passcode s2 # cs))"
        "pacer s' = pacer (completed (min (count_list ms True) (length (passcode s2 # cs))) s2)"
        by blast
      then show ?thesis using m l2 True rc p2(2) pk by (auto simp: pin_lines_def)
    qed
  qed
qed

subsection \<open>Whole runs of \<open>app_main\<close>\<close>

lemma digit_char_Suc_0: "digit_char (Suc 0) = CHR ''1''"
  using digit_char_numerals(2) by simp

lemma pin_lines_Cons: "pin_lines (c # cs) = log_line c @ pin_lines cs"
  by (simp add: pin_lines_def)

lemma pin_lines_append: "pin_lines (xs @ ys) = pin_lines xs @ pin_lines ys"
  by (simp add: pin_lines_def)

lemma read_last_passcode_empty:
  "read_last_passcode None p = Some (ESP_FAIL, p)" "read_last_passcode (Some []) p = Some (ESP_OK, p)"
  using read_last_passcode_lines[of "[]" p]
  by (simp_all add: read_last_passcode_def pin_lines_def)

lemma resume_run:
  assumes "dict_text (pre @ t # rest) tx" "list_all candidate (t # rest)" "t \<notin> set pre"
    and "read_last_passcode log 0 = Some (err, t)"
  shows "\<exists>s. app_main (Some tx) log True mounted =
           Some (if length (t # rest) \<le> count_list mounted True then Exhausted s else Polling s)
         \<and> log_text (pin_log s) = log_text log @ pin_lines (take (count_list mounted True) (t # rest))
         \<and> pacer s = pacer (completed (min (count_list mounted True) (length (t # rest)))
                                (loop_entry log True (fopen_r []) 0))"
proof -
  from skip_scan_found[OF assms(1,3), of "[]" 0 0] obtain sp tx' where
    sk: "skip_scan t (fopen_r tx) 0 0
      = Some (\<lparr>unread = sp # tx', eof_ind = False\<rparr>, t, of_nat (length pre) + 1)"
    and sp: "isspace sp" "dict_text rest tx'"
    by (auto simp: fopen_r_def)
  let ?s0 = "loop_entry log True \<lparr>unread = sp # tx', eof_ind = False\<rparr> t"
  have "candidate (passcode ?s0)" "appendable ?s0"
    "pinlist ?s0 = \<lparr>unread = sp # tx', eof_ind = False\<rparr>"
    using assms(2) by (simp_all add: loop_entry_def)
  moreover have "list_all candidate rest" using assms(2) by simp
  ultimately obtain s where
    s: "main_loop mounted ?s0 = (if length (passcode ?s0 # rest) \<le> count_list mounted True then Exhausted s else Polling s)"
    "log_text (pin_log s) = log_text (pin_log ?s0) @ pin_lines (take (count_list mounted True) (passcode ?s0 # rest))"
    "pacer s = pacer (completed (min (count_list mounted True) (length (passcode ?s0 # rest))) ?s0)"
    using main_loop_log[OF _ _ _ sp, of ?s0 mounted] by blast
  have "pacer ?s0 = pacer (loop_entry log True (fopen_r []) 0)"
    by (simp add: pacer_def loop_entry_def)
  from completed_pacer[OF this] s(3)
  have "pacer s = pacer (completed (min (count_list mounted True) (length (t # rest)))
                                (loop_entry log True (fopen_r []) 0))"
    by (simp add: loop_entry_def)
  with s(1,2) show ?thesis
    using sk assms(4) by (auto simp: app_main_def loop_entry_def)
qed

lemma dict_text_example: "dict_text [0, 1, 7, 42, 9999] ''0\<newline>1\<newline>7\<newline>42\<newline>9999\<newline>''"
proof -
  have nl: "isspace (CHR 0x0A)" by (rule newline_space)
  have e: "dict_text [] []" by (simp add: dict_end)
  have 5: "dict_text [9999] ''9999\<newline>''"
    using dict_entry[OF _ _ _ _ nl e, of "[]" "''9999''" 9999]
    by (simp add: isdigit_def strtol10_def digit_val_def)
  have 4: "dict_text [42, 9999] ''42\<newline>9999\<newline>''"
    using dict_entry[OF _ _ _ _ nl 5, of "[]" "''42''" 42]
    by (simp add: isdigit_def strtol10_def digit_val_def)
  have 3: "dict_text [7, 42, 9999] ''7\<newline>42\<newline>9999\<newline>''"
    using dict_entry[OF _ _ _ _ nl 4, of "[]" "''7''" 7]
    by (simp add: isdigit_def strtol10_def digit_val_def)
  have 2: "dict_text [1, 7, 42, 9999] ''1\<newline>7\<newline>42\<newline>9999\<newline>''"
    using dict_entry[OF _ _ _ _ nl 3, of "[]" "''1''" 1]
    by (simp add: isdigit_def strtol10_def digit_val_def)
  show ?thesis
    using dict_entry[OF _ _ _ _ nl 2, of "[]" "''0''" 0]
    by (simp add: isdigit_def strtol10_def digit_val_def)
qed




text \<open>
  C3, evaluated where the code departs from it: the dictionary 0005, 0000, 0008, no log,
  the device mounted at every poll.  A complete run should log 0005, 0000, 0008.  In the
  code \<open>starting_passcode\<close> keeps its initial value 0 when there is no log, the resume
  scan runs all the same and discards 0005 on its way to 0000, and the run ends exhausted
  with 0000 and 0008 in the log: 0005 is never attempted.
\<close>

theorem fresh_run_skips_to_zero:
  "app_main (Some ''0005\<newline>0000\<newline>0008\<newline>'') None True [True, True]
   = Some (Exhausted
      \<lparr>pin_log = Some ''0000\<newline>0008\<newline>'', appendable = True,
       trace =
         [Led True, WriteLine ''0000\<newline>'' ESP_OK,
          Press 39, Delay Dwell 50, Release, Delay Dwell 50,
          Press 39, Delay Dwell 50, Release, Delay Dwell 50,
          Press 39, Delay Dwell 50, Release, Delay Dwell 50,
          Press 39, Delay Dwell 50, Release, Delay Dwell 50,
          Press 40, Delay Dwell 50, Release, Delay Dwell 50,
          Delay Timeout 965000,
          Led True, Delay Blink 100, Led False, Delay Blink 100,
          WriteLine ''0008\<newline>'' ESP_OK,
          Press 39, Delay Dwell 50, Release, Delay Dwell 50,
          Press 39, Delay Dwell 50, Release, Delay Dwell 50,
          Press 39, Delay Dwell 50, Release, Delay Dwell 50,
          Press 37, Delay Dwell 50, Release, Delay Dwell 50,
          Press 40, Delay Dwell 50, Release, Delay Dwell 50,
          Delay Timeout 965000,
          Led True, Delay Blink 100, Led False, Delay Blink 100],
       pinlist = \<lparr>unread = [], eof_ind = True\<rparr>, passcode = 8,
       attempts = 2, consecutive_attempts = 0, timeout_seconds = 965\<rparr>)"
  by code_simp

text \<open>
  A dictionary with no 0 in it, with no log: the resume scan looks for 0 and never ends.
\<close>

lemma fresh_run_without_zero_never_ends:
  "app_main (Some ''1234\<newline>1111\<newline>'') None can_append mounted = None"
proof -
  have d: "dict_text [1234, 1111] (pin_lines [1234, 1111])"
    by (rule dict_text_pin_lines) (simp add: candidate_def)
  have "skip_scan 0 (fopen_r (pin_lines [1234, 1111])) 0 0 = None"
    by (rule skip_scan_never_ends[OF d]) simp_all
  then show ?thesis
    by (simp add: app_main_def read_last_passcode_def pin_lines_def log_line_def zero_padded4_def
        decimal_digits4_def digit_char_numerals digit_char_Suc_0)
qed

text \<open>
  Where the order is preserved: for every dictionary of candidates whose first entry is 0,
  the entries separated by white space and the last one followed by white space (a final
  newline), and an empty or absent log, the run starts at the beginning of the dictionary
  and the log is the dictionary's candidates in order, one for each poll that finds the
  device mounted; the run is exhausted exactly when all of them are attempted, and then
  the log is the whole dictionary.
\<close>

lemma fresh_run_from_zero:
  assumes "dict_text D dictionary" "list_all candidate D" "D = [] \<or> hd D = 0"
    "log = None \<or> log = Some []"
  shows "\<exists>s. app_main (Some dictionary) log True mounted =
           Some (if length D \<le> count_list mounted True then Exhausted s else Polling s)
         \<and> log_text (pin_log s) = pin_lines (take (count_list mounted True) D)"
proof (cases D)
  case Nil
  have r: "read_last_passcode log 0 = Some (if log = None then ESP_FAIL else ESP_OK, 0)"
    using assms(4) read_last_passcode_empty[of 0] by auto
  have "fscanf_d (fopen_r dictionary) = (InputFailure, \<lparr>unread = [], eof_ind = True\<rparr>)"
    using fscanf_d_dict_end[of "[]" dictionary False] assms(1) Nil by (simp add: fopen_r_def)
  then have sk: "skip_scan 0 (fopen_r dictionary) 0 0 = Some (\<lparr>unread = [], eof_ind = True\<rparr>, 0, 1)"
    by (subst skip_scan.simps) (simp add: assign_def)
  have "main_loop mounted (loop_entry log True \<lparr>unread = [], eof_ind = True\<rparr> 0)
      = Exhausted (loop_entry log True \<lparr>unread = [], eof_ind = True\<rparr> 0)"
    by (rule main_loop_feof) (simp add: loop_entry_def feof_def)
  then show ?thesis
    using Nil r sk assms(4) by (auto simp: app_main_def pin_lines_def loop_entry_def log_text_def)
next
  case (Cons c rest)
  then have c: "c = 0" "list_all candidate (0 # rest)" "dict_text ([] @ 0 # rest) dictionary"
    using assms(1,2,3) by auto
  have r: "read_last_passcode log 0 = Some (if log = None then ESP_FAIL else ESP_OK, 0)"
    using assms(4) read_last_passcode_empty[of 0] by auto
  from resume_run[OF c(3,2) _ r, of mounted] Cons c(1) assms(4) show ?thesis
    by (auto simp: log_text_def)
qed

lemma fresh_run_from_zero_example:
  "dict_text [0, 1, 7, 42, 9999] ''0\<newline>1\<newline>7\<newline>42\<newline>9999\<newline>''
   \<and> list_all candidate [0, 1, 7, 42, 9999]
   \<and> ([0, 1, 7, 42, 9999 :: int] = [] \<or> hd [0, 1, 7, 42, 9999 :: int] = 0)
   \<and> ((None :: string option) = None \<or> (None :: string option) = Some [])
   \<and> (\<exists>s. app_main (Some ''0\<newline>1\<newline>7\<newline>42\<newline>9999\<newline>'') None True
               [True, True, False, True, True, True]
            = Some (Exhausted s)
          \<and> log_text (pin_log s) = ''0000\<newline>0001\<newline>0007\<newline>0042\<newline>9999\<newline>'')"
  using fresh_run_from_zero [of "[0, 1, 7, 42, 9999]" "''0\<newline>1\<newline>7\<newline>42\<newline>9999\<newline>''" None
      "[True, True, False, True, True, True]"] dict_text_example
  by (simp add: candidate_def pin_lines_def log_line_def zero_padded4_def decimal_digits4_def
      digit_char_numerals digit_char_Suc_0)

lemma resume_scan_unbounded:
  assumes "dict_text D dictionary" "list_all candidate L" "L \<noteq> []" "last L \<notin> set D"
    "D \<noteq> [] \<or> last L \<noteq> 0"
  shows "app_main (Some dictionary) (Some (pin_lines L)) can_append mounted = None"
proof -
  have "read_last_passcode (Some (pin_lines L)) 0 = Some (ESP_OK, last L)"
    using read_last_passcode_lines[OF assms(2), of 0] assms(3) by simp
  moreover have "skip_scan (last L) (fopen_r dictionary) 0 0 = None"
    using assms(5) by (intro skip_scan_never_ends[OF assms(1,4)]) auto
  ultimately show ?thesis by (simp add: app_main_def)
qed

text \<open>
  C2, evaluated where the code departs from it: the log ends with 0007 and the dictionary
  holds 0000 and 0001 only.  The resume scan tests neither the result of \<open>fscanf\<close> nor
  \<open>feof\<close>; past the end of the dictionary \<open>passcode\<close> stays 1 for ever, and \<open>app_main\<close>
  neither reports an error nor reaches the main loop, whatever the device does.
\<close>

theorem resume_target_absent_never_ends:
  "app_main (Some ''0000\<newline>0001\<newline>'') (Some ''0007\<newline>'') can_append mounted = None"
proof -
  have "dict_text [0, 1] (pin_lines [0, 1])"
    by (rule dict_text_pin_lines) (simp add: candidate_def)
  from resume_scan_unbounded [OF this, of "[7]" can_append mounted] show ?thesis
    by (simp add: candidate_def pin_lines_def log_line_def zero_padded4_def decimal_digits4_def
      digit_char_numerals digit_char_Suc_0)
qed

subsection \<open>Traces of whole runs\<close>

lemma replay_append:
  "replay pend (es @ es') = (case replay pend es of None \<Rightarrow> None | Some pend' \<Rightarrow> replay pend' es')"
proof (induction es arbitrary: pend)
  case Nil
  show ?case by simp
next
  case (Cons e es)
  show ?case
    by (cases e) (simp_all add: Cons.IH split: list.split)
qed

lemma replay_rejects_unlogged_press: "replay [] (Press k # es) = None"
  by simp

lemma get_digits_small:
  "get_digits p i ds = Some ds' \<Longrightarrow> \<forall>d\<in>set ds. d < 10 \<Longrightarrow> length ds' = length ds \<and> (\<forall>d\<in>set ds'. d < 10)"
proof (induction p i ds rule: get_digits.induct)
  case (1 p i digits)
  show ?case
  proof (cases "p > 0")
    case False
    with 1 show ?thesis by (simp add: get_digits.simps)
  next
    case True
    then have i: "i < length digits" and r: "get_digits (p div 10) (i + 1) (digits[i := of_int (p mod 10)]) = Some ds'"
      using 1(2) by (simp_all add: get_digits.simps[of p i digits] split: if_splits)
    have "(of_int (p mod 10) :: uint8) < 10"
    proof -
      have "unat (word_of_int (p mod 10) :: uint8) = nat (p mod 10)" by (rule unat_digit) simp_all
      then show ?thesis by (simp add: word_less_nat_alt)
    qed
    then have "\<forall>d\<in>set (digits[i := of_int (p mod 10)]). d < 10"
      using 1(3) by (auto dest!: set_update_subset_insert[THEN subsetD])
    from 1(1)[OF True i r this] show ?thesis by simp
  qed
qed

lemma appended_append: "appended (es @ es') = appended es @ appended es'"
  by (induction es rule: appended.induct) simp_all

lemma send_passcode_Inr:
  assumes "send_passcode p s = Inr s'"
  shows "\<exists>digits. length digits = 4 \<and> (\<forall>d\<in>set digits. d < 10)
     \<and> s' = s\<lparr>pin_log := (if appendable s then Some (log_text (pin_log s) @ pincode_str digits) else pin_log s),
               trace := trace s @ WriteLine (pincode_str digits) (if appendable s then ESP_OK else ESP_FAIL)
                          # enter_passcode digits\<rparr>"
proof -
  from assms obtain digits where d: "get_digits p 0 (replicate passcode_len 0) = Some digits"
    by (auto simp: send_passcode_def split: option.splits)
  have "length digits = length (replicate passcode_len (0::uint8)) \<and> (\<forall>d\<in>set digits. d < 10)"
    by (rule get_digits_small[OF d]) simp
  moreover have "s' = s\<lparr>pin_log := (if appendable s then Some (log_text (pin_log s) @ pincode_str digits) else pin_log s),
               trace := trace s @ WriteLine (pincode_str digits) (if appendable s then ESP_OK else ESP_FAIL)
                          # enter_passcode digits\<rparr>"
    using assms d by (auto simp: send_passcode_def write_line_def log_text_def)
  ultimately show ?thesis by (auto simp: passcode_len_def)
qed

lemma four_digits:
  assumes "length (digits :: uint8 list) = 4"
  obtains a b c d where "digits = [d, c, b, a]"
  using assms by (auto simp: length_Suc_conv numeral_eq_Suc)

lemma sprintf_d_small: "d < 10 \<Longrightarrow> sprintf_d d = [digit_char (unat d)]"
  by (simp add: sprintf_d_def Let_def word_less_nat_alt)

lemma key_of_digit_char: "d < 10 \<Longrightarrow> key_of_char (digit_char (unat d)) = digit_key d"
  by (simp add: key_of_char_def of_char_digit_char word_less_nat_alt)

lemma digit_char_not_newline: "(d :: uint8) < 10 \<Longrightarrow> digit_char (unat d) \<noteq> CHR 0x0A"
  using isdigit_digit_char[of "unat d"] newline_not_digit by (auto simp: word_less_nat_alt)

lemma replay_attempt_block:
  assumes "length digits = 4" "\<forall>d\<in>set digits. d < 10"
  shows "replay pend (WriteLine (pincode_str digits) r # enter_passcode digits) = Some []"
proof -
  obtain a b c d where ds: "digits = [d, c, b, a]" using assms(1) by (rule four_digits)
  have lt: "a < 10" "b < 10" "c < 10" "d < 10" using assms(2) ds by simp_all
  have k: "keys_of_line (pincode_str digits) = [digit_key a, digit_key b, digit_key c, digit_key d, HID_KEY_ENTER]"
    using lt by (simp add: ds keys_of_line_def pincode_str_def sprintf_d_small key_of_digit_char
        digit_char_not_newline numeral_3_eq_3)
  have e: "enter_passcode digits = tap (digit_key a) @ tap (digit_key b) @ tap (digit_key c) @ tap (digit_key d)
       @ tap HID_KEY_ENTER"
    by (simp add: ds enter_passcode_def passcode_len_def numeral_eq_Suc upt_rec)
  show ?thesis
    by (simp add: k e tap_def)
qed

lemma appended_enter_passcode: "appended (enter_passcode digits @ es) = appended es"
proof -
  have t: "\<And>k es. appended (tap k @ es) = appended es" by (simp add: tap_def)
  have "\<And>ks. appended (concat (map tap ks) @ es) = appended es"
  proof -
    fix ks show "appended (concat (map tap ks) @ es) = appended es"
      by (induction ks) (simp_all add: t)
  qed
  from this[of "map (\<lambda>i. digit_key (digits ! i)) (rev [0..<passcode_len]) @ [HID_KEY_ENTER]"]
  show ?thesis by (simp add: enter_passcode_def comp_def)
qed

lemma main_loop_invariant:
  assumes step: "\<And>s b s'. I s \<Longrightarrow> attempt s = Inr (b, s') \<Longrightarrow> I s'"
    and bl: "\<And>s. I s \<Longrightarrow> I (blink s)"
  shows "I s \<Longrightarrow> state_of (main_loop ms s) = Some s' \<Longrightarrow> I s'"
proof (induction ms arbitrary: s)
  case Nil
  then show ?case by (simp split: if_splits)
next
  case (Cons m ms)
  show ?case
  proof (cases "feof (pinlist s)")
    case True
    with Cons.prems show ?thesis by simp
  next
    case nf: False
    show ?thesis
    proof (cases m)
      case False
      with nf Cons.prems(2) have "state_of (main_loop ms (blink s)) = Some s'" by simp
      from Cons.IH[OF bl[OF Cons.prems(1)] this] show ?thesis .
    next
      case True
      show ?thesis
      proof (cases "attempt s")
        case (Inl e)
        with nf True Cons.prems show ?thesis by simp
      next
        case (Inr r)
        obtain b s1 where r: "r = (b, s1)" by (cases r)
        have i1: "I s1" using step[OF Cons.prems(1)] Inr r by simp
        have i2: "I (if b then s1 else blink s1)" using i1 bl by simp
        have "state_of (main_loop ms (if b then s1 else blink s1)) = Some s'"
          using nf True Inr r Cons.prems(2) by simp
        from Cons.IH[OF i2 this] show ?thesis .
      qed
    qed
  qed
qed

lemma pace_trace: "\<exists>site ms. trace (snd (pace s)) = trace s @ [Delay site ms]"
  by (simp add: pace_def wait_timeout_def Let_def)

lemma attempt_Inr:
  assumes "attempt s = Inr (b, s')"
  shows "\<exists>digits site ms. length digits = 4 \<and> (\<forall>d\<in>set digits. d < 10)
     \<and> trace s' = trace s @ WriteLine (pincode_str digits) (if appendable s then ESP_OK else ESP_FAIL)
                          # enter_passcode digits @ [Delay site ms]
     \<and> pin_log s' = (if appendable s then Some (log_text (pin_log s) @ pincode_str digits) else pin_log s)
     \<and> appendable s' = appendable s"
proof -
  from assms obtain s1 where s1: "send_passcode (passcode s) s = Inr s1"
    by (auto simp: attempt_def split: sum.splits)
  from send_passcode_Inr[OF s1] obtain digits where d: "length digits = 4" "\<forall>d\<in>set digits. d < 10"
    and e: "s1 = s\<lparr>pin_log := (if appendable s then Some (log_text (pin_log s) @ pincode_str digits) else pin_log s),
               trace := trace s @ WriteLine (pincode_str digits) (if appendable s then ESP_OK else ESP_FAIL)
                          # enter_passcode digits\<rparr>"
    by blast
  let ?s2 = "s1\<lparr>pinlist := snd (fscanf_d (pinlist s1)), passcode := assign (fst (fscanf_d (pinlist s1))) (passcode s1)\<rparr>"
  have s': "s' = snd (pace ?s2)"
    using assms s1 by (simp add: attempt_def split: prod.splits)
  obtain site ms where t: "trace s' = trace ?s2 @ [Delay site ms]"
    using pace_trace[of ?s2] s' by auto
  have "trace s' = trace s @ WriteLine (pincode_str digits) (if appendable s then ESP_OK else ESP_FAIL)
                          # enter_passcode digits @ [Delay site ms]"
    using t e by simp
  moreover have "pin_log s' = (if appendable s then Some (log_text (pin_log s) @ pincode_str digits) else pin_log s)"
    "appendable s' = appendable s"
    using s' e by (simp_all add: pace_fields)
  ultimately show ?thesis using d by blast
qed

lemma log_first_step:
  assumes a: "attempt s = Inr (b, s')"
    and i: "replay [] (trace s) = Some []" "log_text (pin_log s) = base @ appended (trace s)"
      "appendable s = ok" "ok \<longrightarrow> \<not> list_ex write_failed (trace s)"
  shows "replay [] (trace s') = Some [] \<and> log_text (pin_log s') = base @ appended (trace s')
      \<and> appendable s' = ok \<and> (ok \<longrightarrow> \<not> list_ex write_failed (trace s'))"
proof -
  from attempt_Inr[OF a] obtain digits site ms where d: "length digits = 4" "\<forall>d\<in>set digits. d < 10"
    and t: "trace s' = trace s @ WriteLine (pincode_str digits) (if appendable s then ESP_OK else ESP_FAIL)
                          # enter_passcode digits @ [Delay site ms]"
    and l: "pin_log s' = (if appendable s then Some (log_text (pin_log s) @ pincode_str digits) else pin_log s)"
    and ap: "appendable s' = appendable s"
    by blast
  let ?r = "if appendable s then ESP_OK else ESP_FAIL"
  have t': "trace s' = trace s @ (WriteLine (pincode_str digits) ?r # enter_passcode digits) @ [Delay site ms]"
    using t by simp
  have 1: "replay [] (trace s') = Some []"
    unfolding t' by (simp only: replay_append i(1) replay_attempt_block[OF d]) simp
  have 2: "log_text (pin_log s') = base @ appended (trace s')"
    using l i(2) appended_enter_passcode[of digits "[]"]
    by (simp add: t appended_append appended_enter_passcode log_text_def)
  have nf: "\<not> list_ex write_failed (enter_passcode digits)"
    by (simp add: enter_passcode_def tap_def list_ex_iff)
  have 3: "ok \<longrightarrow> \<not> list_ex write_failed (trace s')"
    using i(3,4) nf by (auto simp: t list_ex_iff)
  show ?thesis using 1 2 3 ap i(3) by simp
qed

lemma log_first_blink:
  assumes "replay [] (trace s) = Some []" "log_text (pin_log s) = base @ appended (trace s)"
      "appendable s = ok" "ok \<longrightarrow> \<not> list_ex write_failed (trace s)"
  shows "replay [] (trace (blink s)) = Some [] \<and> log_text (pin_log (blink s)) = base @ appended (trace (blink s))
      \<and> appendable (blink s) = ok \<and> (ok \<longrightarrow> \<not> list_ex write_failed (trace (blink s)))"
  using assms by (simp add: blink_def replay_append appended_append list_ex_iff)

lemma example_run:
  "app_main (Some ''0000\<newline>0001\<newline>'') None True [True, False]
   = Some (Polling
      \<lparr>pin_log = Some ''0000\<newline>'', appendable = True,
       trace =
         [Led True, WriteLine ''0000\<newline>'' ESP_OK,
          Press 39, Delay Dwell 50, Release, Delay Dwell 50,
          Press 39, Delay Dwell 50, Release, Delay Dwell 50,
          Press 39, Delay Dwell 50, Release, Delay Dwell 50,
          Press 39, Delay Dwell 50, Release, Delay Dwell 50,
          Press 40, Delay Dwell 50, Release, Delay Dwell 50,
          Delay Timeout 965000,
          Led True, Delay Blink 100, Led False, Delay Blink 100,
          Led True, Delay Blink 100, Led False, Delay Blink 100],
       pinlist = \<lparr>unread = ''\<newline>'', eof_ind = False\<rparr>, passcode = 1,
       attempts = 1, consecutive_attempts = 0, timeout_seconds = 965\<rparr>)"
  by code_simp

lemma replay_logged_eq:
  "\<not> list_ex write_failed es \<Longrightarrow> replay_logged pend es = replay pend es"
proof (induction es arbitrary: pend)
  case Nil
  show ?case by simp
next
  case (Cons e es)
  show ?case
  proof (cases e)
    case (WriteLine l r)
    with Cons show ?thesis by (cases r) simp_all
  next
    case (Press k)
    with Cons show ?thesis by (simp split: list.split)
  qed (use Cons in simp_all)
qed

text \<open>
  C4, a run with a log that cannot be opened for appending: \<open>write_line\<close> fails, nothing
  is appended, and the five keys of 0000 go out all the same.  No log write of the
  candidate has completed when its first key is pressed, and the replay that takes the
  log write at its word fails.
\<close>

theorem keys_without_log_write:
  "app_main (Some ''0000\<newline>'') None False [True]
   = Some (Exhausted
      \<lparr>pin_log = None, appendable = False,
       trace =
         [Led True, WriteLine ''0000\<newline>'' ESP_FAIL,
          Press 39, Delay Dwell 50, Release, Delay Dwell 50,
          Press 39, Delay Dwell 50, Release, Delay Dwell 50,
          Press 39, Delay Dwell 50, Release, Delay Dwell 50,
          Press 39, Delay Dwell 50, Release, Delay Dwell 50,
          Press 40, Delay Dwell 50, Release, Delay Dwell 50,
          Delay Timeout 965000,
          Led True, Delay Blink 100, Led False, Delay Blink 100],
       pinlist = \<lparr>unread = [], eof_ind = True\<rparr>, passcode = 0,
       attempts = 1, consecutive_attempts = 0, timeout_seconds = 965\<rparr>)
   \<and> replay_logged []
         [Led True, WriteLine ''0000\<newline>'' ESP_FAIL,
          Press 39, Delay Dwell 50, Release, Delay Dwell 50,
          Press 39, Delay Dwell 50, Release, Delay Dwell 50,
          Press 39, Delay Dwell 50, Release, Delay Dwell 50,
          Press 39, Delay Dwell 50, Release, Delay Dwell 50,
          Press 40, Delay Dwell 50, Release, Delay Dwell 50,
          Delay Timeout 965000,
          Led True, Delay Blink 100, Led False, Delay Blink 100] = None"
  by code_simp

text \<open>
  C4 as amended: in every run that reaches the main loop, whatever the dictionary, the log
  and the device do, the call of \<open>write_line\<close> for a candidate has returned before the first
  key of that candidate is pressed: every key press is the next key of the line that the
  latest call of \<open>write_line\<close> was given, and no key is left pending.  The text of the log
  is what it was at the start followed by the lines of the successful writes in the trace.
  In every run in which the log can be opened for appending, no write fails and the append
  itself has completed before the keys: the trace replays with the successful writes
  alone, so no press of a candidate comes before that candidate's log write.
\<close>

theorem log_before_emit:
  assumes "app_main dictionary log can_append mounted = Some out" "state_of out = Some s"
  shows "replay [] (trace s) = Some []
       \<and> log_text (pin_log s) = log_text log @ appended (trace s)
       \<and> (can_append \<longrightarrow> \<not> list_ex write_failed (trace s) \<and> replay_logged [] (trace s) = Some [])"
proof -
  from assms obtain f p where m: "out = main_loop mounted (loop_entry log can_append f p)"
    by (auto simp: app_main_def split: option.splits prod.splits)
  define I where "I = (\<lambda>s::state. replay [] (trace s) = Some [] \<and> log_text (pin_log s) = log_text log @ appended (trace s)
      \<and> appendable s = can_append \<and> (can_append \<longrightarrow> \<not> list_ex write_failed (trace s)))"
  have "I (loop_entry log can_append f p)"
    by (simp add: I_def loop_entry_def)
  moreover have "state_of (main_loop mounted (loop_entry log can_append f p)) = Some s"
    using assms(2) m by simp
  moreover have "\<And>s b s'. I s \<Longrightarrow> attempt s = Inr (b, s') \<Longrightarrow> I s'"
    unfolding I_def using log_first_step by blast
  moreover have "\<And>s. I s \<Longrightarrow> I (blink s)"
    unfolding I_def using log_first_blink by blast
  ultimately have "I s"
    using main_loop_invariant[of I] by blast
  then have i: "replay [] (trace s) = Some []" "log_text (pin_log s) = log_text log @ appended (trace s)"
    "can_append \<longrightarrow> \<not> list_ex write_failed (trace s)"
    by (simp_all add: I_def)
  have "can_append \<longrightarrow> replay_logged [] (trace s) = Some []"
    using i(1,3) replay_logged_eq[of "trace s" "[]"] by simp
  with i show ?thesis by simp
qed

theorem log_before_emit_witness:
  "\<exists>out s. app_main (Some ''0000\<newline>0001\<newline>'') None True [True, False] = Some out \<and> state_of out = Some s
     \<and> take 3 (trace s) = [Led True, WriteLine ''0000\<newline>'' ESP_OK, Press 39]
     \<and> replay [] (trace s) = Some []
     \<and> log_text (pin_log s) = log_text None @ appended (trace s)
     \<and> (True \<longrightarrow> \<not> list_ex write_failed (trace s) \<and> replay_logged [] (trace s) = Some [])"
  using log_before_emit [OF example_run] by (simp add: example_run)

subsection \<open>Pacing\<close>

lemma pace_full_wait:
  assumes "consecutive_attempts s = 0"
  shows "fst (pace s) = False \<and> consecutive_attempts (snd (pace s)) = 0
     \<and> (\<exists>ms. trace (snd (pace s)) = trace s @ [Delay Timeout ms])"
  using assms
  by (simp add: pace_def wait_timeout_def Let_def attempt_limit_no_timeouts_def)

lemma enter_passcode_events:
  "e \<in> set (enter_passcode digits) \<Longrightarrow> (\<exists>k. e = Press k) \<or> e = Release \<or> e = Delay Dwell 50"
  by (auto simp: enter_passcode_def tap_def)

lemma enter_passcode_filters:
  "filter is_timeout (enter_passcode digits) = []" "filter is_write (enter_passcode digits) = []"
  "\<not> list_ex is_grace (enter_passcode digits)"
  by (auto simp: filter_empty_conv list_ex_iff dest!: enter_passcode_events)

lemma attempt_pace:
  assumes "attempt s = Inr (b, s')"
  shows "\<exists>digits r s2. (b, s') = pace s2
     \<and> trace s2 = trace s @ WriteLine (pincode_str digits) r # enter_passcode digits
     \<and> consecutive_attempts s2 = consecutive_attempts s
     \<and> attempts s2 = attempts s \<and> timeout_seconds s2 = timeout_seconds s"
proof -
  from assms obtain s1 where s1: "send_passcode (passcode s) s = Inr s1"
    by (auto simp: attempt_def split: sum.splits)
  from send_passcode_Inr[OF s1] obtain digits where
    e: "s1 = s\<lparr>pin_log := (if appendable s then Some (log_text (pin_log s) @ pincode_str digits) else pin_log s),
               trace := trace s @ WriteLine (pincode_str digits) (if appendable s then ESP_OK else ESP_FAIL)
                          # enter_passcode digits\<rparr>"
    by blast
  let ?s2 = "s1\<lparr>pinlist := snd (fscanf_d (pinlist s1)), passcode := assign (fst (fscanf_d (pinlist s1))) (passcode s1)\<rparr>"
  have "(b, s') = pace ?s2"
    using assms s1 by (simp add: attempt_def split: prod.splits)
  moreover have "trace ?s2 = trace s @ WriteLine (pincode_str digits) (if appendable s then ESP_OK else ESP_FAIL)
                          # enter_passcode digits" "consecutive_attempts ?s2 = consecutive_attempts s"
      "attempts ?s2 = attempts s" "timeout_seconds ?s2 = timeout_seconds s"
    using e by simp_all
  ultimately show ?thesis by blast
qed

lemma full_wait_step:
  assumes a: "attempt s = Inr (b, s')"
    and j: "consecutive_attempts s = 0" "\<not> list_ex is_grace (trace s)"
      "length (filter is_timeout (trace s)) = length (filter is_write (trace s))"
  shows "\<not> b \<and> consecutive_attempts s' = 0 \<and> \<not> list_ex is_grace (trace s')
      \<and> length (filter is_timeout (trace s')) = length (filter is_write (trace s'))"
proof -
  from attempt_pace[OF a] obtain digits r s2 where p: "(b, s') = pace s2"
    and t: "trace s2 = trace s @ WriteLine (pincode_str digits) r # enter_passcode digits"
    and c: "consecutive_attempts s2 = consecutive_attempts s"
    by blast
  have c0: "consecutive_attempts s2 = 0" using c j(1) by simp
  from pace_full_wait[OF c0] p[symmetric] obtain ms where
    w: "\<not> b" "consecutive_attempts s' = 0" "trace s' = trace s2 @ [Delay Timeout ms]"
    by auto
  have "\<not> list_ex is_grace (trace s')"
    using j(2) enter_passcode_filters(3)[of digits] by (auto simp: w(3) t list_ex_iff)
  moreover have "length (filter is_timeout (trace s')) = length (filter is_write (trace s'))"
    using j(3) by (simp add: w(3) t enter_passcode_filters)
  ultimately show ?thesis using w by simp
qed

lemma paced_append:
  "paced st (es @ es') = (case paced st es of None \<Rightarrow> None | Some st' \<Rightarrow> paced st' es')"
proof (induction st es rule: paced.induct)
qed simp_all

lemma paced_enter_passcode: "paced st (enter_passcode digits @ es) = paced st es"
proof -
  have t: "\<And>k es. paced st (tap k @ es) = paced st es" by (cases st) (simp add: tap_def)
  have "\<And>ks. paced st (concat (map tap ks) @ es) = paced st es"
  proof -
    fix ks show "paced st (concat (map tap ks) @ es) = paced st es"
      by (induction ks) (simp_all add: t)
  qed
  from this[of "map (\<lambda>i. digit_key (digits ! i)) (rev [0..<passcode_len]) @ [HID_KEY_ENTER]"]
  show ?thesis by (simp add: enter_passcode_def comp_def)
qed

lemma paced_rejects_other_wait: "paced (True, 0, 965) (Delay Timeout 965001 # es) = None"
  by (simp add: attempt_limit_timeout_doubled_def)

lemma paced_rejects_grace: "paced st (Delay Grace ms # es) = None"
  by (cases st) simp

lemma pace_zero:
  assumes "consecutive_attempts s = 0"
  shows "pace s = (False,
     if attempts s + 1 = attempt_limit_timeout_doubled
     then s\<lparr>attempts := 0, consecutive_attempts := 0, timeout_seconds := timeout_seconds s * 2,
            trace := trace s @ [Delay Timeout (timeout_seconds s * 2 * 1000)]\<rparr>
     else s\<lparr>attempts := attempts s + 1, consecutive_attempts := 0,
            trace := trace s @ [Delay Timeout (timeout_seconds s * 1000)]\<rparr>)"
  using assms
  by (simp add: pace_def wait_timeout_def Let_def attempt_limit_no_timeouts_def)

lemma paced_step:
  assumes a: "attempt s = Inr (b, s')"
    and j: "consecutive_attempts s = 0"
      "paced (False, 0, t0) (trace s) = Some (False, attempts s, timeout_seconds s)"
  shows "paced (False, 0, t0) (trace s') = Some (False, attempts s', timeout_seconds s')"
proof -
  from attempt_pace[OF a] obtain digits r s2 where p: "(b, s') = pace s2"
    and t: "trace s2 = trace s @ WriteLine (pincode_str digits) r # enter_passcode digits"
    and c: "consecutive_attempts s2 = consecutive_attempts s"
    and l: "attempts s2 = attempts s" "timeout_seconds s2 = timeout_seconds s"
    by blast
  have c0: "consecutive_attempts s2 = 0" using c j(1) by simp
  have s': "s' = snd (pace s2)" using p by (metis snd_conv)
  have 1: "paced (False, 0, t0) (trace s2) = Some (True, attempts s, timeout_seconds s)"
    using j(2) paced_enter_passcode[of "(True, attempts s, timeout_seconds s)" digits "[]"]
    by (simp add: t paced_append)
  show ?thesis
    unfolding s' pace_zero[OF c0]
    using 1 l by (simp add: paced_append)
qed

text \<open>
  C9: with \<open>attempt_limit_no_timeouts = 1\<close> the grace branch is never taken, and every
  completed attempt waits the full current cooldown.  In every run that reaches the main
  loop the trace holds no grace delay and as many timeout delays as attempts (calls of
  \<open>write_line\<close>); \<open>consecutive_attempts\<close> is 0 whenever the loop condition is tested, so it
  is 1 at the test \<open>consecutive_attempts < 1\<close>; and the trace passes the pacing check from
  the initial cooldown of 960 + 5 seconds: every attempt is followed, before the next one,
  by a wait of \<open>timeout_seconds * 1000\<close> ms for the value that \<open>timeout_seconds\<close> has at that
  attempt (doubled first on every 200th), and the check ends with the counters of the
  final state.
\<close>

theorem grace_branch_unreachable:
  assumes "app_main dictionary log can_append mounted = Some out" "state_of out = Some s"
  shows "\<not> list_ex is_grace (trace s)
       \<and> length (filter is_timeout (trace s)) = length (filter is_write (trace s))
       \<and> consecutive_attempts s = 0
       \<and> paced (False, 0, 960 + leeway_secs) (trace s) = Some (False, attempts s, timeout_seconds s)"
proof -
  from assms obtain f p where m: "out = main_loop mounted (loop_entry log can_append f p)"
    by (auto simp: app_main_def split: option.splits prod.splits)
  define J where "J = (\<lambda>s::state. consecutive_attempts s = 0 \<and> \<not> list_ex is_grace (trace s)
      \<and> length (filter is_timeout (trace s)) = length (filter is_write (trace s))
      \<and> paced (False, 0, 960 + leeway_secs) (trace s) = Some (False, attempts s, timeout_seconds s))"
  have "J (loop_entry log can_append f p)"
    by (simp add: J_def loop_entry_def)
  moreover have "state_of (main_loop mounted (loop_entry log can_append f p)) = Some s"
    using assms(2) m by simp
  moreover have "\<And>s b s'. J s \<Longrightarrow> attempt s = Inr (b, s') \<Longrightarrow> J s'"
    unfolding J_def using full_wait_step paced_step by blast
  moreover have "\<And>s. J s \<Longrightarrow> J (blink s)"
    unfolding J_def by (simp add: blink_def list_ex_iff paced_append)
  ultimately have "J s"
    using main_loop_invariant[of J] by blast
  then show ?thesis by (simp add: J_def)
qed

theorem grace_branch_unreachable_witness:
  "\<exists>out s. app_main (Some ''0000\<newline>0001\<newline>'') None True [True, False] = Some out \<and> state_of out = Some s
     \<and> filter is_timeout (trace s) = [Delay Timeout 965000]
     \<and> \<not> list_ex is_grace (trace s)
     \<and> length (filter is_timeout (trace s)) = length (filter is_write (trace s))
     \<and> consecutive_attempts s = 0
     \<and> paced (False, 0, 960 + leeway_secs) (trace s) = Some (False, 1, 965)"
  using grace_branch_unreachable [OF example_run] by (simp add: example_run)

text \<open>
  C10: on the attempt that brings \<open>attempts\<close> to 200, the counter is reset and the timeout
  doubled first, the wait that follows is the doubled timeout, \<open>consecutive_attempts\<close> is
  0 after it, and \<open>continue\<close> is not executed (no grace delay), whatever
  \<open>consecutive_attempts\<close> was.
\<close>

theorem doubling_attempt_waits_doubled:
  assumes "attempts s + 1 = attempt_limit_timeout_doubled"
  shows "pace s = (False, s\<lparr>attempts := 0, consecutive_attempts := 0,
                            timeout_seconds := timeout_seconds s * 2,
                            trace := trace s @ [Delay Timeout (timeout_seconds s * 2 * 1000)]\<rparr>)"
  using assms by (simp add: pace_def wait_timeout_def Let_def)

theorem doubling_attempt_waits_doubled_witness:
  "attempts (loop_entry None True (fopen_r []) 0 \<lparr>attempts := 199\<rparr>) + 1 = attempt_limit_timeout_doubled
   \<and> pace (loop_entry None True (fopen_r []) 0 \<lparr>attempts := 199\<rparr>)
     = (False, loop_entry None True (fopen_r []) 0
          \<lparr>timeout_seconds := 1930, trace := [Led True, Delay Timeout 1930000]\<rparr>)"
  using doubling_attempt_waits_doubled [of "loop_entry None True (fopen_r []) 0 \<lparr>attempts := 199\<rparr>"]
  by (simp add: loop_entry_def attempt_limit_timeout_doubled_def leeway_secs_def)

lemma word_199: "(of_nat k :: int32) + 1 = 200 \<longleftrightarrow> k mod 200 = 199" if "k < 200"
proof -
  have "(of_nat k :: int32) + 1 = of_nat (Suc k)" by simp
  moreover have "((of_nat (Suc k) :: int32) = of_nat 200) = (Suc k = 200)"
  proof -
    have "take_bit 32 (Suc k) = Suc k" "take_bit 32 (200::nat) = 200"
      using that by (simp_all add: take_bit_nat_eq_self)
    then show ?thesis by (simp only: word_of_nat_eq_iff) simp
  qed
  ultimately show ?thesis using that by simp
qed

lemma pace_iter:
  assumes "attempts s = 0"
  shows "attempts (completed n s) = of_nat (n mod 200)
       \<and> timeout_seconds (completed n s) = timeout_seconds s * 2 ^ (n div 200)"
proof (induction n)
  case 0
  show ?case using assms by (simp add: completed_def)
next
  case (Suc n)
  let ?c = "completed n s"
  have a: "attempts ?c = of_nat (n mod 200)" and t: "timeout_seconds ?c = timeout_seconds s * 2 ^ (n div 200)"
    using Suc by simp_all
  have w: "(attempts ?c + 1 = 200) = (n mod 200 = 199)"
    unfolding a using word_199[of "n mod 200"] by simp
  show ?case
  proof (cases "n mod 200 = 199")
    case True
    then have d: "Suc n mod 200 = 0" "Suc n div 200 = Suc (n div 200)"
      by (simp_all add: mod_Suc div_Suc)
    show ?thesis
      using True w t
      by (simp add: completed_Suc pace_def wait_timeout_def Let_def attempt_limit_timeout_doubled_def d)
  next
    case False
    then have d: "Suc n mod 200 = Suc (n mod 200)" "Suc n div 200 = n div 200"
      by (simp_all add: mod_Suc div_Suc)
    show ?thesis
      using False w t a
      by (simp add: completed_Suc pace_def wait_timeout_def Let_def attempt_limit_timeout_doubled_def d)
  qed
qed

lemma cooldown_before_overflow:
  assumes "n < 4400"
  shows "sint (timeout_seconds (completed n (loop_entry log can_append f p))) = 965 * 2 ^ (n div 200)"
proof -
  have a: "attempts (loop_entry log can_append f p) = 0"
    and t: "timeout_seconds (loop_entry log can_append f p) = 965"
    by (simp_all add: loop_entry_def leeway_secs_def)
  have k: "n div 200 \<le> 21" using assms by simp
  have "(2::int) ^ (n div 200) \<le> 2 ^ 21" using k by (intro power_increasing) simp_all
  then have b: "965 * (2::int) ^ (n div 200) < 2 ^ 31" by simp
  have b0: "- (2 ^ 31) \<le> 965 * (2::int) ^ (n div 200)"
  proof -
    have "- (2 ^ 31) \<le> (0::int)" by simp
    moreover have "(0::int) \<le> 965 * 2 ^ (n div 200)" by simp
    ultimately show ?thesis by (rule order_trans)
  qed
  have w: "timeout_seconds (completed n (loop_entry log can_append f p)) = word_of_int (965 * 2 ^ (n div 200))"
    using pace_iter[OF a, of n] by (simp add: t)
  have "sint (word_of_int (965 * 2 ^ (n div 200)) :: int32)
      = signed_take_bit (LENGTH(32) - 1) (965 * 2 ^ (n div 200))"
    by (rule sint_sbintrunc')
  also have "\<dots> = 965 * 2 ^ (n div 200)"
    by (rule signed_take_bit_int_eq_self) (use b b0 in simp_all)
  finally show ?thesis unfolding w .
qed

lemma count_list_replicate: "count_list (replicate n True) True = n"
  by (induction n) simp_all

lemma candidates_upto: "n \<le> 10000 \<Longrightarrow> list_all candidate (map int [m..<n])"
  by (auto simp: list_all_iff candidate_def)

lemma long_run_pacer:
  assumes "0 < n" "n \<le> 10000" "k \<le> n"
  shows "\<exists>s. app_main (Some (pin_lines (map int [0..<n]))) None True (replicate k True)
             = Some (if n \<le> k then Exhausted s else Polling s)
           \<and> timeout_seconds s = 965 * 2 ^ (k div 200) \<and> attempts s = of_nat (k mod 200)"
proof -
  have u: "map int [0..<n] = [] @ 0 # map int [1..<n]"
    using assms(1) by (simp add: upt_conv_Cons)
  have r: "read_last_passcode None 0 = Some (ESP_FAIL, 0)"
    by (simp add: read_last_passcode_def)
  have l: "length ((0::int) # map int [1..<n]) = n" using assms(1) by simp
  have c: "list_all candidate (0 # map int [1..<n])"
    using candidates_upto[OF assms(2), of 1] by (simp add: candidate_def)
  have "dict_text ([] @ 0 # map int [1..<n]) (pin_lines ([] @ 0 # map int [1..<n]))"
    using dict_text_pin_lines[OF c] by simp
  from resume_run[OF this c _ r, of "replicate k True"]
  obtain s where s: "app_main (Some (pin_lines ([] @ 0 # map int [1..<n]))) None True (replicate k True)
       = Some (if length (0 # map int [1..<n]) \<le> count_list (replicate k True) True then Exhausted s else Polling s)"
    "pacer s = pacer (completed (min (count_list (replicate k True) True) (length (0 # map int [1..<n])))
                                (loop_entry None True (fopen_r []) 0))"
    by (auto simp: candidate_def)
  have a: "attempts (loop_entry None True (fopen_r []) 0) = 0"
    and t: "timeout_seconds (loop_entry None True (fopen_r []) 0) = 965"
    by (simp_all add: loop_entry_def leeway_secs_def)
  have "pacer s = pacer (completed k (loop_entry None True (fopen_r []) 0))"
    using s(2) assms(3) unfolding l count_list_replicate by (simp add: min_def)
  then have "timeout_seconds s = 965 * 2 ^ (k div 200) \<and> attempts s = of_nat (k mod 200)"
    using pace_iter[OF a, of k] by (simp add: pacer_def t)
  moreover have "app_main (Some (pin_lines (map int [0..<n]))) None True (replicate k True)
             = Some (if n \<le> k then Exhausted s else Polling s)"
    using s(1) unfolding l count_list_replicate u[symmetric] .
  ultimately show ?thesis by blast
qed

text \<open>
  C5, evaluated where the code departs from it: the dictionary 0000 to 4399, no log, the
  device mounted at every poll.  \<open>timeout_seconds\<close> is an \<open>int\<close> and is doubled with no
  bound.  After 4399 attempts it is \<open>965 * 2 ^ 21\<close>; the 4400th attempt doubles it for the
  22nd time, \<open>965 * 2 ^ 22\<close> does not fit 32 bits, and the result is negative: the timeout
  has decreased.  (The doubling once in 200 attempts and the reset of the counter hold
  for runs of any length, lemma \<open>long_run_pacer\<close>; the timeout does not decrease during
  the first 4399 attempts, lemma \<open>cooldown_before_overflow\<close>.)
\<close>

theorem cooldown_wraps_at_22nd_doubling:
  "(\<exists>s. app_main (Some (pin_lines (map int [0..<4400]))) None True (replicate 4399 True) = Some (Polling s)
        \<and> sint (timeout_seconds s) = 2023751680)
   \<and> (\<exists>s. app_main (Some (pin_lines (map int [0..<4400]))) None True (replicate 4400 True) = Some (Exhausted s)
        \<and> sint (timeout_seconds s) = - 247463936)"
proof -
  have d: "(4399::nat) div 200 = 21" "(4400::nat) div 200 = 22" by simp_all
  from long_run_pacer[of 4400 4399] obtain s1 where
    "app_main (Some (pin_lines (map int [0..<4400]))) None True (replicate 4399 True) = Some (Polling s1)"
    "timeout_seconds s1 = 965 * 2 ^ 21"
    unfolding d by auto
  moreover from long_run_pacer[of 4400 4400] obtain s2 where
    "app_main (Some (pin_lines (map int [0..<4400]))) None True (replicate 4400 True) = Some (Exhausted s2)"
    "timeout_seconds s2 = 965 * 2 ^ 22"
    unfolding d by auto
  ultimately show ?thesis by auto
qed

subsection \<open>A log that cannot be written\<close>

text \<open>
  C6, a run with a log that cannot be opened for appending: both calls of \<open>write_line\<close>
  fail, the log stays absent, and both candidates are typed all the same; the run goes on
  to the end of the dictionary.
\<close>

theorem log_failure_run_goes_on:
  "app_main (Some ''0000\<newline>0001\<newline>'') None False [True, True]
   = Some (Exhausted
      \<lparr>pin_log = None, appendable = False,
       trace =
         [Led True, WriteLine ''0000\<newline>'' ESP_FAIL,
          Press 39, Delay Dwell 50, Release, Delay Dwell 50,
          Press 39, Delay Dwell 50, Release, Delay Dwell 50,
          Press 39, Delay Dwell 50, Release, Delay Dwell 50,
          Press 39, Delay Dwell 50, Release, Delay Dwell 50,
          Press 40, Delay Dwell 50, Release, Delay Dwell 50,
          Delay Timeout 965000,
          Led True, Delay Blink 100, Led False, Delay Blink 100,
          WriteLine ''0001\<newline>'' ESP_FAIL,
          Press 39, Delay Dwell 50, Release, Delay Dwell 50,
          Press 39, Delay Dwell 50, Release, Delay Dwell 50,
          Press 39, Delay Dwell 50, Release, Delay Dwell 50,
          Press 30, Delay Dwell 50, Release, Delay Dwell 50,
          Press 40, Delay Dwell 50, Release, Delay Dwell 50,
          Delay Timeout 965000,
          Led True, Delay Blink 100, Led False, Delay Blink 100],
       pinlist = \<lparr>unread = [], eof_ind = True\<rparr>, passcode = 1,
       attempts = 2, consecutive_attempts = 0, timeout_seconds = 965\<rparr>)"
  by code_simp

text \<open>
  C6 as amended: when the log cannot be opened for appending, \<open>write_line\<close> returns
  \<open>ESP_FAIL\<close> and writes nothing, and the failure is not fatal: the attempt goes on, the
  keys of the candidate are emitted although no log record was written, the log is left as
  it was, and the attempt ends with its wait like any other.
\<close>

theorem log_failure_not_fatal:
  assumes "candidate (passcode s)" "\<not> appendable s"
  shows "write_line (log_line (passcode s)) s
           = (ESP_FAIL, s\<lparr>trace := trace s @ [WriteLine (log_line (passcode s)) ESP_FAIL]\<rparr>)
       \<and> (\<exists>continue s' site ms. attempt s = Inr (continue, s') \<and> pin_log s' = pin_log s
             \<and> trace s' = trace s @ WriteLine (log_line (passcode s)) ESP_FAIL # spec_emit (passcode s)
                            @ [Delay site ms])"
proof -
  let ?s1 = "s\<lparr>
      pin_log := (if appendable s then Some (log_text (pin_log s) @ log_line (passcode s)) else pin_log s),
      trace := trace s @ WriteLine (log_line (passcode s)) (if appendable s then ESP_OK else ESP_FAIL)
                 # spec_emit (passcode s),
      pinlist := snd (fscanf_d (pinlist s)),
      passcode := assign (fst (fscanf_d (pinlist s))) (passcode s)\<rparr>"
  have a: "attempt s = Inr (fst (pace ?s1), snd (pace ?s1))"
    using attempt_candidate[OF assms(1)] by simp
  obtain site ms where t: "trace (snd (pace ?s1)) = trace ?s1 @ [Delay site ms]"
    using pace_trace[of ?s1] by blast
  have l: "pin_log (snd (pace ?s1)) = pin_log s" using assms(2) by (simp add: pace_fields)
  have "trace (snd (pace ?s1)) = trace s @ WriteLine (log_line (passcode s)) ESP_FAIL
      # spec_emit (passcode s) @ [Delay site ms]"
    using t assms(2) by simp
  with a l have "\<exists>continue s' site ms. attempt s = Inr (continue, s') \<and> pin_log s' = pin_log s
             \<and> trace s' = trace s @ WriteLine (log_line (passcode s)) ESP_FAIL # spec_emit (passcode s)
                            @ [Delay site ms]"
    by blast
  then show ?thesis
    using assms(2) by (simp add: write_line_def)
qed

theorem log_failure_not_fatal_witness:
  "candidate (passcode (loop_entry None False (fopen_r ''\<newline>0001\<newline>'') 0))
   \<and> \<not> appendable (loop_entry None False (fopen_r ''\<newline>0001\<newline>'') 0)
   \<and> (\<exists>continue s' site ms.
         attempt (loop_entry None False (fopen_r ''\<newline>0001\<newline>'') 0) = Inr (continue, s')
       \<and> pin_log s' = None
       \<and> trace s' = [Led True, WriteLine ''0000\<newline>'' ESP_FAIL,
            Press 39, Delay Dwell 50, Release, Delay Dwell 50,
            Press 39, Delay Dwell 50, Release, Delay Dwell 50,
            Press 39, Delay Dwell 50, Release, Delay Dwell 50,
            Press 39, Delay Dwell 50, Release, Delay Dwell 50,
            Press 40, Delay Dwell 50, Release, Delay Dwell 50,
            Delay site ms])"
  using log_failure_not_fatal [of "loop_entry None False (fopen_r ''\<newline>0001\<newline>'') 0"]
  by (simp add: loop_entry_def candidate_def log_line_def zero_padded4_def decimal_digits4_def
      digit_char_numerals spec_emit_def digit_key_def HID_KEY_0_def HID_KEY_Z_def HID_KEY_ENTER_def)

end
